theory Spec2Isabelle
  imports Main "HOL-Library.Word"
begin

unbundle bit_operations_syntax

section \<open>Bytes, the input stream and Python's integer conversions\<close>

text \<open>
  A \<open>bytes\<close> object is a list of 8-bit words; Python's integers are unbounded, so they
  are \<open>int\<close>. The exceptions that the code of \<open>midi.py\<close> can raise are values.
\<close>

type_synonym byte = "8 word"

datatype error = AssertionError | MIDIError string | OverflowError | AttributeError

text \<open>
  \<open>f.read(number)\<close> on a binary file: the next \<open>number\<close> bytes, fewer when the file
  ends first (nothing at the end of the file), everything left when \<open>number\<close> is negative.
  The file object is the list of bytes not read yet.
\<close>

definition read :: "int \<Rightarrow> byte list \<Rightarrow> byte list \<times> byte list" where
  "read number f =
     (if number < 0 then (f, []) else (take (nat number) f, drop (nat number) f))"

text \<open>\<open>int.from_bytes(bs, byteorder="big")\<close>; the empty bytes object gives 0.\<close>

definition from_bytes :: "byte list \<Rightarrow> int" where
  "from_bytes bs = foldl (\<lambda>acc b. acc * 256 + uint b) 0 bs"

text \<open>
  \<open>x.to_bytes(k, byteorder="big")\<close>: OverflowError when \<open>x\<close> is negative or does not
  fit \<open>k\<close> bytes.
\<close>

fun to_bytes_digits :: "nat \<Rightarrow> int \<Rightarrow> byte list" where
  "to_bytes_digits 0 x = []"
| "to_bytes_digits (Suc k) x = to_bytes_digits k (x div 256) @ [word_of_int x]"

definition to_bytes :: "int \<Rightarrow> nat \<Rightarrow> error + byte list" where
  "to_bytes x k = (if x < 0 \<or> 256 ^ k \<le> x then Inl OverflowError else Inr (to_bytes_digits k x))"

definition MThd :: "byte list" where
  "MThd = [0x4D, 0x54, 0x68, 0x64]"

definition MTrk :: "byte list" where
  "MTrk = [0x4D, 0x54, 0x72, 0x6B]"

definition seconds_message :: string where
  "seconds_message =
     ''That file determines time using seconds instead of beats, and doing math with time is hard.''"

definition event_type_message :: string where
  "event_type_message =
     ''That file has an invalid MIDI event type, and I couldn't figure out how to ignore those as indicated in the filetype spec.''"

section \<open>MidiEvent\<close>

text \<open>
  The attributes of a \<open>MidiEvent\<close>; \<open>pe_length\<close>, \<open>p_trailing_ignore\<close> and
  \<open>p_event_info\<close> are \<open>_length\<close>, \<open>_trailing_ignore\<close> and \<open>_event_info\<close>.
\<close>

record MidiEvent =
  pe_length :: int
  timedelta :: int
  "note" :: "int option"
  velocity :: "int option"
  channel :: "int option"
  p_trailing_ignore :: "byte list"
  p_event_info :: int

text \<open>
  \<open>_read_bytes(f, number)\<close>: adds \<open>number\<close> (the bytes asked for, not the bytes
  received) to \<open>_length\<close> and reads. The state is the counter and the file.
\<close>

definition read_bytes :: "int \<Rightarrow> byte list \<Rightarrow> int \<Rightarrow> byte list \<times> int \<times> byte list" where
  "read_bytes len f number = (fst (read number f), len + number, snd (read number f))"

text \<open>
  The delta-time loop of \<open>__init__\<close> (\<open>while True\<close>, lines 105 to 110); its state is
  \<open>timedelta\<close>, \<open>_length\<close> and the file. At the end of the file the byte read is
  empty, \<open>raw\<close> is 0 and the loop breaks.
\<close>

function timedelta_loop :: "int \<Rightarrow> int \<Rightarrow> byte list \<Rightarrow> int \<times> int \<times> byte list" where
  "timedelta_loop td len f =
     (let td1 = push_bit 7 td;
          (b, len1, f1) = read_bytes len f 1;
          raw = from_bytes b;
          td2 = td1 + (raw AND 127)
      in if drop_bit 7 raw AND 1 = 0 then (td2, len1, f1) else timedelta_loop td2 len1 f1)"
  by pat_completeness auto
termination
proof (relation "measure (\<lambda>(td, len, f). length f)")
  show "wf (measure (\<lambda>(td, len, f). length f))"
    by simp
next
  fix td len :: int and f :: "byte list" and td1 x b y len1 f1 raw td2
  assume x: "x = read_bytes len f 1" and xb: "(b, y) = x" and y: "(len1, f1) = y"
    and raw: "raw = from_bytes b" and go: "drop_bit 7 raw AND 1 \<noteq> 0"
  have "f \<noteq> []"
  proof
    assume "f = []"
    with x xb have "b = []"
      by (simp add: read_bytes_def read_def)
    with raw go show False
      by (simp add: from_bytes_def)
  qed
  moreover from x xb y have "f1 = drop 1 f"
    by (simp add: read_bytes_def read_def)
  ultimately show "((td2, len1, f1), (td, len, f)) \<in> measure (\<lambda>(td, len, f). length f)"
    by (cases f) simp_all
qed

declare timedelta_loop.simps [simp del]

text \<open>
  The length loop of a system or meta event (lines 122 to 128); its state is
  \<open>_trailing_ignore\<close>, \<open>ignore_num\<close>, \<open>_length\<close> and the file.
\<close>

function ignore_loop ::
  "byte list \<Rightarrow> int \<Rightarrow> int \<Rightarrow> byte list \<Rightarrow> byte list \<times> int \<times> int \<times> byte list" where
  "ignore_loop trailing ignore_num len f =
     (let (ignore_raw, len1, f1) = read_bytes len f 1;
          trailing1 = trailing @ ignore_raw;
          raw = from_bytes ignore_raw;
          ignore_num1 = ignore_num + (raw AND 127)
      in if drop_bit 7 raw AND 1 = 0 then (trailing1, ignore_num1, len1, f1)
         else ignore_loop trailing1 ignore_num1 len1 f1)"
  by pat_completeness auto
termination
proof (relation "measure (\<lambda>(trailing, ignore_num, len, f). length f)")
  show "wf (measure (\<lambda>(trailing, ignore_num, len, f). length f))"
    by simp
next
  fix trailing :: "byte list" and ignore_num len :: int and f :: "byte list"
    and x ignore_raw y len1 f1 trailing1 raw ignore_num1
  assume x: "x = read_bytes len f 1" and xb: "(ignore_raw, y) = x" and y: "(len1, f1) = y"
    and raw: "raw = from_bytes ignore_raw" and go: "drop_bit 7 raw AND 1 \<noteq> 0"
  have "f \<noteq> []"
  proof
    assume "f = []"
    with x xb have "ignore_raw = []"
      by (simp add: read_bytes_def read_def)
    with raw go show False
      by (simp add: from_bytes_def)
  qed
  moreover from x xb y have "f1 = drop 1 f"
    by (simp add: read_bytes_def read_def)
  ultimately show "((trailing1, ignore_num1, len1, f1), (trailing, ignore_num, len, f))
      \<in> measure (\<lambda>(trailing, ignore_num, len, f). length f)"
    by (cases f) simp_all
qed

declare ignore_loop.simps [simp del]

text \<open>
  The second part of \<open>__init__\<close> (lines 111 to 139): the status byte and what follows
  it, by the event type. \<open>td\<close> and \<open>len1\<close> are \<open>timedelta\<close> and \<open>_length\<close> after the
  delta-time loop. The result is the event and the file after it, or the exception raised.
\<close>

definition MidiEvent_dispatch :: "int \<Rightarrow> int \<Rightarrow> byte list \<Rightarrow> error + (MidiEvent \<times> byte list)" where
  "MidiEvent_dispatch td len1 f1 =
     (let (info, len2, f2) = read_bytes len1 f1 1;
          event_info = from_bytes info;
          event_type = drop_bit 4 event_info
      in if event_type = 0xF then
           (let event_subtype = event_info AND 15;
                (trailing1, len3, f3) =
                  (if event_subtype = 0xF
                   then (let (m, len', f') = read_bytes len2 f2 1 in ([] @ m, len', f'))
                   else ([], len2, f2));
                (trailing2, ignore_num, len4, f4) = ignore_loop trailing1 0 len3 f3;
                (payload, len5, f5) = read_bytes len4 f4 ignore_num
            in Inr (\<lparr>pe_length = len5, timedelta = td, note = None, velocity = None,
                      channel = None, p_trailing_ignore = trailing2 @ payload,
                      p_event_info = event_info\<rparr>, f5))
         else if event_type = 0xA \<or> event_type = 0xB \<or> event_type = 0xE then
           (let (payload, len3, f3) = read_bytes len2 f2 2
            in Inr (\<lparr>pe_length = len3, timedelta = td, note = None, velocity = None,
                      channel = None, p_trailing_ignore = [] @ payload,
                      p_event_info = event_info\<rparr>, f3))
         else if event_type = 0xC \<or> event_type = 0xD then
           (let (payload, len3, f3) = read_bytes len2 f2 1
            in Inr (\<lparr>pe_length = len3, timedelta = td, note = None, velocity = None,
                      channel = None, p_trailing_ignore = [] @ payload,
                      p_event_info = event_info\<rparr>, f3))
         else if event_type = 0x8 \<or> event_type = 0x9 then
           (let (n, len3, f3) = read_bytes len2 f2 1;
                (v, len4, f4) = read_bytes len3 f3 1
            in Inr (\<lparr>pe_length = len4, timedelta = td, note = Some (from_bytes n),
                      velocity = Some (from_bytes v), channel = Some (event_info AND 15),
                      p_trailing_ignore = [], p_event_info = event_info\<rparr>, f4))
         else Inl (MIDIError event_type_message))"

text \<open>
  \<open>MidiEvent.__init__(f)\<close>: the delta-time loop from \<open>timedelta = 0\<close> and
  \<open>_length = 0\<close>, then the status byte and the payload.
\<close>

definition MidiEvent_init :: "byte list \<Rightarrow> error + (MidiEvent \<times> byte list)" where
  "MidiEvent_init f =
     (let (td, len1, f1) = timedelta_loop 0 0 f
      in MidiEvent_dispatch td len1 f1)"

text \<open>
  The delta-time loop of \<open>to_file\<close> (\<open>while td\<close>, lines 154 to 160). A negative
  \<open>td\<close> never becomes 0 under \<open>>> 7\<close>, so the loop may not end: not returning is
  \<open>None\<close>.
\<close>

partial_function (option) td_loop :: "int \<Rightarrow> bool \<Rightarrow> byte list \<Rightarrow> (error + byte list) option" where
  "td_loop td is_first result =
     (if td \<noteq> 0 then
        (let next_byte = td AND 127;
             next_byte1 = (if \<not> is_first then next_byte OR 128 else next_byte)
         in case to_bytes next_byte1 1 of
              Inl e \<Rightarrow> Some (Inl e)
            | Inr b \<Rightarrow> td_loop (drop_bit 7 td) False (b @ result))
      else Some (Inr result))"

text \<open>
  The first part of \<open>to_file\<close> (lines 151 to 163): the bytes of the delta-time, one
  zero byte when the loop has produced nothing.
\<close>

definition to_file_timedelta :: "int \<Rightarrow> (error + byte list) option" where
  "to_file_timedelta td =
     (case td_loop td True [] of
        None \<Rightarrow> None
      | Some (Inl e) \<Rightarrow> Some (Inl e)
      | Some (Inr result) \<Rightarrow> Some (Inr (if length result = 0 then [0] else result)))"

text \<open>
  \<open>MidiEvent.to_file()\<close>: the delta-time, the status byte, the note and the velocity
  when the note is not \<open>None\<close>, and the bytes kept aside. A velocity that is \<open>None\<close>
  beside a note has no \<open>to_bytes\<close>.
\<close>

definition MidiEvent_to_file :: "MidiEvent \<Rightarrow> (error + byte list) option" where
  "MidiEvent_to_file self =
     (case to_file_timedelta (timedelta self) of
        None \<Rightarrow> None
      | Some (Inl e) \<Rightarrow> Some (Inl e)
      | Some (Inr result) \<Rightarrow>
          Some (case to_bytes (p_event_info self) 1 of
                  Inl e \<Rightarrow> Inl e
                | Inr info \<Rightarrow>
                    (case note self of
                       None \<Rightarrow> Inr (result @ info @ p_trailing_ignore self)
                     | Some n \<Rightarrow>
                         (case to_bytes n 1 of
                            Inl e \<Rightarrow> Inl e
                          | Inr nb \<Rightarrow>
                              (case velocity self of
                                 None \<Rightarrow> Inl AttributeError
                               | Some v \<Rightarrow>
                                   (case to_bytes v 1 of
                                      Inl e \<Rightarrow> Inl e
                                    | Inr vb \<Rightarrow>
                                        Inr (result @ info @ nb @ vb
                                             @ p_trailing_ignore self)))))))"

section \<open>MidiTrack\<close>

record MidiTrack =
  events :: "MidiEvent list"

text \<open>
  A successful \<open>MidiEvent.__init__\<close> has read at least one byte from the file: at the
  end of the file the status byte read is 0 and the event type is invalid.
\<close>

lemma timedelta_loop_Nil: "timedelta_loop td len [] = (push_bit 7 td, len + 1, [])"
  by (subst timedelta_loop.simps) (simp add: read_bytes_def read_def from_bytes_def)

lemma timedelta_loop_Cons:
  "timedelta_loop td len (b # f) =
     (if drop_bit 7 (uint b) AND 1 = 0 then (push_bit 7 td + (uint b AND 127), len + 1, f)
      else timedelta_loop (push_bit 7 td + (uint b AND 127)) (len + 1) f)"
  by (subst timedelta_loop.simps) (simp add: read_bytes_def read_def from_bytes_def)

lemma timedelta_loop_suffix:
  "timedelta_loop td len f = (td', len', f') \<Longrightarrow> \<exists>k. f' = drop k f \<and> (f \<noteq> [] \<longrightarrow> 0 < k)"
proof (induction f arbitrary: td len)
  case Nil
  then show ?case
    by (simp add: timedelta_loop_Nil)
next
  case (Cons b f)
  show ?case
  proof (cases "drop_bit 7 (uint b) AND 1 = 0")
    case True
    with Cons.prems have "f' = drop 1 (b # f)"
      by (simp add: timedelta_loop_Cons)
    then show ?thesis
      by (intro exI [of _ 1]) simp
  next
    case False
    with Cons.prems
    have "timedelta_loop (push_bit 7 td + (uint b AND 127)) (len + 1) f = (td', len', f')"
      by (simp add: timedelta_loop_Cons)
    from Cons.IH [OF this] obtain k where "f' = drop k f"
      by blast
    then have "f' = drop (Suc k) (b # f)"
      by simp
    then show ?thesis
      by (intro exI [of _ "Suc k"]) simp
  qed
qed

lemma ignore_loop_Nil:
  "ignore_loop trailing ignore_num len [] = (trailing, ignore_num, len + 1, [])"
  by (subst ignore_loop.simps) (simp add: read_bytes_def read_def from_bytes_def)

lemma ignore_loop_Cons:
  "ignore_loop trailing ignore_num len (b # f) =
     (if drop_bit 7 (uint b) AND 1 = 0
      then (trailing @ [b], ignore_num + (uint b AND 127), len + 1, f)
      else ignore_loop (trailing @ [b]) (ignore_num + (uint b AND 127)) (len + 1) f)"
  by (subst ignore_loop.simps) (simp add: read_bytes_def read_def from_bytes_def)

lemma ignore_loop_suffix:
  "ignore_loop trailing ignore_num len f = (trailing', ignore_num', len', f')
     \<Longrightarrow> length f' \<le> length f"
proof (induction f arbitrary: trailing ignore_num len)
  case Nil
  then show ?case
    by (simp add: ignore_loop_Nil)
next
  case (Cons b f)
  show ?case
  proof (cases "drop_bit 7 (uint b) AND 1 = 0")
    case True
    with Cons.prems show ?thesis
      by (simp add: ignore_loop_Cons)
  next
    case False
    with Cons.prems
    have "ignore_loop (trailing @ [b]) (ignore_num + (uint b AND 127)) (len + 1) f
            = (trailing', ignore_num', len', f')"
      by (simp add: ignore_loop_Cons)
    from Cons.IH [OF this] show ?thesis
      by simp
  qed
qed

lemma read_bytes_shorter: "read_bytes len f number = (b, len', f') \<Longrightarrow> length f' \<le> length f"
  by (auto simp: read_bytes_def read_def split: if_splits)

lemma MidiEvent_init_consumes:
  assumes "MidiEvent_init f = Inr (ev, f')"
  shows "length f' < length f"
proof -
  obtain td len1 f1 where tl: "timedelta_loop 0 0 f = (td, len1, f1)"
    by (cases "timedelta_loop 0 0 f") auto
  have ne: "f \<noteq> []"
  proof
    assume "f = []"
    with assms show False
      by (simp add: MidiEvent_init_def MidiEvent_dispatch_def timedelta_loop_Nil read_bytes_def
          read_def from_bytes_def)
  qed
  from timedelta_loop_suffix [OF tl] ne obtain k where "f1 = drop k f" "0 < k"
    by blast
  with ne have l1: "length f1 < length f"
    by (cases f) auto
  obtain info len2 f2 where rb: "read_bytes len1 f1 1 = (info, len2, f2)"
    by (cases "read_bytes len1 f1 1") auto
  from read_bytes_shorter [OF rb] have l2: "length f2 \<le> length f1" .
  have "length f' \<le> length f2"
    using assms tl rb
    by (auto simp: MidiEvent_init_def MidiEvent_dispatch_def Let_def split: if_splits prod.splits
        dest!: read_bytes_shorter ignore_loop_suffix)
  with l1 l2 show ?thesis by simp
qed

text \<open>
  The loop of \<open>MidiTrack.__init__\<close> (\<open>while length\<close>, lines 69 to 72): it runs while
  the counter is not 0, also when the counter has become negative. Its state is the
  counter, the events appended so far and the file.
\<close>

function track_loop ::
  "int \<Rightarrow> MidiEvent list \<Rightarrow> byte list \<Rightarrow> error + (MidiEvent list \<times> byte list)" where
  "track_loop len evs f =
     (if len \<noteq> 0 then
        (case MidiEvent_init f of
           Inl e \<Rightarrow> Inl e
         | Inr (event, f1) \<Rightarrow> track_loop (len - pe_length event) (evs @ [event]) f1)
      else Inr (evs, f))"
  by pat_completeness auto
termination
  by (relation "measure (\<lambda>(len, evs, f). length f)") (auto dest: MidiEvent_init_consumes)

declare track_loop.simps [simp del]

text \<open>
  \<open>k\<close> calls of \<open>MidiEvent(f)\<close> one after the other, with no counter: the events that
  \<open>k\<close> rounds of the loop read. The properties of the loop are stated with it.
\<close>

fun read_events :: "nat \<Rightarrow> byte list \<Rightarrow> error + (MidiEvent list \<times> byte list)" where
  "read_events 0 f = Inr ([], f)"
| "read_events (Suc k) f =
     (case MidiEvent_init f of
        Inl e \<Rightarrow> Inl e
      | Inr (event, f1) \<Rightarrow>
          (case read_events k f1 of
             Inl e \<Rightarrow> Inl e
           | Inr (evs, f2) \<Rightarrow> Inr (event # evs, f2)))"

text \<open>\<open>MidiTrack.__init__(f)\<close>.\<close>

definition MidiTrack_init :: "byte list \<Rightarrow> error + (MidiTrack \<times> byte list)" where
  "MidiTrack_init f =
     (let (header, f1) = read 4 f
      in if header \<noteq> MTrk then Inl AssertionError
         else (let (b, f2) = read 4 f1;
                   len = from_bytes b
               in case track_loop len [] f2 of
                    Inl e \<Rightarrow> Inl e
                  | Inr (evs, f3) \<Rightarrow> Inr (\<lparr>events = evs\<rparr>, f3)))"

text \<open>The loop of \<open>MidiTrack.to_file\<close> over the events (lines 77 and 78).\<close>

fun events_to_file :: "byte list \<Rightarrow> MidiEvent list \<Rightarrow> (error + byte list) option" where
  "events_to_file result [] = Some (Inr result)"
| "events_to_file result (event # evs) =
     (case MidiEvent_to_file event of
        None \<Rightarrow> None
      | Some (Inl e) \<Rightarrow> Some (Inl e)
      | Some (Inr b) \<Rightarrow> events_to_file (result @ b) evs)"

text \<open>\<open>MidiTrack.to_file()\<close>.\<close>

definition MidiTrack_to_file :: "MidiTrack \<Rightarrow> (error + byte list) option" where
  "MidiTrack_to_file self =
     (case events_to_file [] (events self) of
        None \<Rightarrow> None
      | Some (Inl e) \<Rightarrow> Some (Inl e)
      | Some (Inr result) \<Rightarrow>
          Some (case to_bytes (int (length result)) 4 of
                  Inl e \<Rightarrow> Inl e
                | Inr n \<Rightarrow> Inr (MTrk @ n @ result)))"

section \<open>MidiFile\<close>

text \<open>
  The attributes of a \<open>MidiFile\<close>; \<open>p_length\<close>, \<open>p_num_tracks\<close>, \<open>p_division\<close> and
  \<open>p_trailing\<close> are \<open>_length\<close>, \<open>_num_tracks\<close>, \<open>_division\<close> and \<open>_trailing\<close>.
\<close>

record MidiFile =
  p_length :: int
  format :: int
  p_num_tracks :: int
  p_division :: int
  division_type :: int
  per_quarter_note :: int
  p_trailing :: "byte list"
  tracks :: "MidiTrack list"

text \<open>
  The list comprehension \<open>[MidiTrack(f) for x in range(self._num_tracks)]\<close>, by the number
  of tracks still to read.
\<close>

fun tracks_comprehension :: "nat \<Rightarrow> byte list \<Rightarrow> error + (MidiTrack list \<times> byte list)" where
  "tracks_comprehension 0 f = Inr ([], f)"
| "tracks_comprehension (Suc n) f =
     (case MidiTrack_init f of
        Inl e \<Rightarrow> Inl e
      | Inr (t, f1) \<Rightarrow>
          (case tracks_comprehension n f1 of
             Inl e \<Rightarrow> Inl e
           | Inr (ts, f2) \<Rightarrow> Inr (t # ts, f2)))"

text \<open>\<open>MidiFile.__init__(f)\<close>: the file object and what is left of the input.\<close>

definition MidiFile_init :: "byte list \<Rightarrow> error + (MidiFile \<times> byte list)" where
  "MidiFile_init f =
     (let (header, f1) = read 4 f
      in if header \<noteq> MThd then Inl AssertionError
         else (let (b1, f2) = read 4 f1;
                   len = from_bytes b1
               in if \<not> 6 \<le> len then Inl AssertionError
                  else (let (b2, f3) = read 2 f2;
                            fmt = from_bytes b2;
                            (b3, f4) = read 2 f3;
                            num_tracks = from_bytes b3;
                            (b4, f5) = read 2 f4;
                            division = from_bytes b4;
                            dtype = drop_bit 15 division AND 1
                        in if dtype = 1 then Inl (MIDIError seconds_message)
                           else (let pqn = division AND 0b11111111111111;
                                     (trailing, f6) =
                                       (if 6 < len then read (len - 6) f5 else ([], f5))
                                 in case tracks_comprehension (nat num_tracks) f6 of
                                      Inl e \<Rightarrow> Inl e
                                    | Inr (ts, f7) \<Rightarrow>
                                        Inr (\<lparr>p_length = len, format = fmt,
                                              p_num_tracks = num_tracks,
                                              p_division = division, division_type = dtype,
                                              per_quarter_note = pqn, p_trailing = trailing,
                                              tracks = ts\<rparr>, f7)))))"

text \<open>The loop of \<open>MidiFile.to_file\<close> over the tracks (lines 49 and 50).\<close>

fun tracks_to_file :: "byte list \<Rightarrow> MidiTrack list \<Rightarrow> (error + byte list) option" where
  "tracks_to_file result [] = Some (Inr result)"
| "tracks_to_file result (track # ts) =
     (case MidiTrack_to_file track of
        None \<Rightarrow> None
      | Some (Inl e) \<Rightarrow> Some (Inl e)
      | Some (Inr b) \<Rightarrow> tracks_to_file (result @ b) ts)"

text \<open>\<open>MidiFile.to_file()\<close>.\<close>

definition MidiFile_to_file :: "MidiFile \<Rightarrow> (error + byte list) option" where
  "MidiFile_to_file self =
     (case to_bytes (p_length self) 4 of
        Inl e \<Rightarrow> Some (Inl e)
      | Inr b1 \<Rightarrow>
          (case to_bytes (format self) 2 of
             Inl e \<Rightarrow> Some (Inl e)
           | Inr b2 \<Rightarrow>
               (case to_bytes (p_num_tracks self) 2 of
                  Inl e \<Rightarrow> Some (Inl e)
                | Inr b3 \<Rightarrow>
                    (case to_bytes (p_division self) 2 of
                       Inl e \<Rightarrow> Some (Inl e)
                     | Inr b4 \<Rightarrow>
                         tracks_to_file (MThd @ b1 @ b2 @ b3 @ b4 @ p_trailing self)
                           (tracks self)))))"

section \<open>The pitch operation\<close>

text \<open>
  The two loops of \<open>pitch\<close> (lines 194 to 198) for an amount that \<open>int(amount)\<close> has
  accepted; the prompt around them does not touch the events.
\<close>

fun pitch_events :: "int \<Rightarrow> MidiEvent list \<Rightarrow> MidiEvent list" where
  "pitch_events amount [] = []"
| "pitch_events amount (event # evs) =
     (case note event of
        None \<Rightarrow> event
      | Some n \<Rightarrow> event\<lparr>note := Some (max 0 (min 127 (n + amount)))\<rparr>)
     # pitch_events amount evs"

fun pitch :: "int \<Rightarrow> MidiTrack list \<Rightarrow> MidiTrack list" where
  "pitch amount [] = []"
| "pitch amount (track # ts) =
     track\<lparr>events := pitch_events amount (events track)\<rparr> # pitch amount ts"

section \<open>The pitch operation clamps every note\<close>

lemma pitch_events_length: "length (pitch_events a evs) = length evs"
  by (induction evs) auto

lemma pitch_events_nth:
  "j < length evs \<Longrightarrow>
     pitch_events a evs ! j =
       (case note (evs ! j) of
          None \<Rightarrow> evs ! j
        | Some n \<Rightarrow> (evs ! j)\<lparr>note := Some (max 0 (min 127 (n + a)))\<rparr>)"
  by (induction evs arbitrary: j) (auto simp: nth_Cons split: nat.splits option.splits)

lemma pitch_length: "length (pitch a ts) = length ts"
  by (induction ts) auto

lemma pitch_nth:
  "i < length ts \<Longrightarrow> pitch a ts ! i = (ts ! i)\<lparr>events := pitch_events a (events (ts ! i))\<rparr>"
  by (induction ts arbitrary: i) (auto simp: nth_Cons split: nat.splits)

text \<open>
  C9: for every shift amount \<open>a\<close>, the pitch operation keeps the tracks and the events
  where they are; an event without a note is left unchanged, and an event with note
  \<open>n\<close> is the same event with the note \<open>max 0 (min 127 (n + a))\<close>, which lies in 0 to 127.
\<close>

theorem pitch_clamps_every_note:
  assumes "i < length ts" and "j < length (events (ts ! i))"
  shows "length (pitch a ts) = length ts
    \<and> length (events (pitch a ts ! i)) = length (events (ts ! i))
    \<and> (note (events (ts ! i) ! j) = None
         \<longrightarrow> events (pitch a ts ! i) ! j = events (ts ! i) ! j)
    \<and> (\<forall>n. note (events (ts ! i) ! j) = Some n \<longrightarrow>
          events (pitch a ts ! i) ! j
            = (events (ts ! i) ! j)\<lparr>note := Some (max 0 (min 127 (n + a)))\<rparr>
          \<and> (\<exists>m. note (events (pitch a ts ! i) ! j) = Some m \<and> 0 \<le> m \<and> m \<le> 127))"
  using assms by (simp add: pitch_length pitch_nth pitch_events_length pitch_events_nth)

theorem pitch_clamps_every_note_witness:
  "0 < length [\<lparr>events = [\<lparr>pe_length = 4, timedelta = 0, note = Some 60, velocity = Some 64,
        channel = Some 0, p_trailing_ignore = [], p_event_info = 144\<rparr>,
      \<lparr>pe_length = 3, timedelta = 0, note = None, velocity = None,
        channel = None, p_trailing_ignore = [5], p_event_info = 192\<rparr>]\<rparr>]
   \<and> note (events (pitch 200 [\<lparr>events = [\<lparr>pe_length = 4, timedelta = 0, note = Some 60,
        velocity = Some 64, channel = Some 0, p_trailing_ignore = [], p_event_info = 144\<rparr>,
      \<lparr>pe_length = 3, timedelta = 0, note = None, velocity = None,
        channel = None, p_trailing_ignore = [5], p_event_info = 192\<rparr>]\<rparr>] ! 0) ! 0) = Some 127"
  using pitch_clamps_every_note [of 0 "[\<lparr>events = [\<lparr>pe_length = 4, timedelta = 0,
        note = Some 60, velocity = Some 64, channel = Some 0, p_trailing_ignore = [],
        p_event_info = 144\<rparr>,
      \<lparr>pe_length = 3, timedelta = 0, note = None, velocity = None,
        channel = None, p_trailing_ignore = [5], p_event_info = 192\<rparr>]\<rparr>]" 0 200]
  by simp

section \<open>The division field and the ticks per quarter note\<close>

text \<open>
  C3: the stored ticks per quarter note should be the low 15 bits of the division field.
  The mask of line 32 has 14 ones: for the division \<open>0x4000\<close> (top bit 0, so the file is
  accepted) the stored value is 0, and the low 15 bits are \<open>0x4000\<close>.
\<close>

theorem per_quarter_note_drops_bit_14:
  "\<exists>mf. MidiFile_init (MThd @ [0, 0, 0, 6, 0, 1, 0, 1, 0x40, 0x00]
             @ MTrk @ [0, 0, 0, 4, 0x00, 0xFF, 0x2F, 0x00]) = Inr (mf, [])
     \<and> p_division mf = 0x4000 \<and> division_type mf = 0
     \<and> per_quarter_note mf = 0 \<and> p_division mf AND 0x7FFF = 0x4000"
  by (simp add: MidiFile_init_def MidiTrack_init_def MThd_def MTrk_def track_loop.simps
      MidiEvent_init_def MidiEvent_dispatch_def timedelta_loop_Cons ignore_loop_Cons
      read_bytes_def read_def from_bytes_def)

section \<open>The length of a system or meta event\<close>

text \<open>
  C2: the payload length of a system or meta event should be the value of the
  variable-length integer that follows. The loop of lines 122 to 128 adds the low seven
  bits of every byte and never shifts: for the length bytes \<open>81 00\<close>, which the delta-time
  loop reads as 128, it computes 1, and one byte of the 128 is consumed.
\<close>

theorem meta_length_is_not_shifted:
  "MidiEvent_init ([0x00, 0xFF, 0x01, 0x81, 0x00] @ replicate 128 0x41) =
     Inr (\<lparr>pe_length = 6, timedelta = 0, note = None, velocity = None, channel = None,
           p_trailing_ignore = [0x01, 0x81, 0x00, 0x41], p_event_info = 255\<rparr>,
          replicate 127 0x41)
   \<and> fst (timedelta_loop 0 0 [0x81, 0x00]) = 128"
  by (simp add: MidiEvent_init_def MidiEvent_dispatch_def timedelta_loop_Cons ignore_loop_Cons
      read_bytes_def read_def from_bytes_def)

section \<open>The variable-length integer of the delta-time\<close>

lemma and_127: "(x::int) AND 127 = x mod 128"
proof -
  have "x AND mask 7 = x mod 2 ^ 7"
    by (simp only: take_bit_eq_mask [symmetric] take_bit_eq_mod)
  then show ?thesis by (simp add: mask_eq_exp_minus_1)
qed

lemma and_15: "(x::int) AND 15 = x mod 16"
proof -
  have "x AND mask 4 = x mod 2 ^ 4"
    by (simp only: take_bit_eq_mask [symmetric] take_bit_eq_mod)
  then show ?thesis by (simp add: mask_eq_exp_minus_1)
qed

lemma high_bit_arith: "drop_bit 7 (x::int) AND 1 = x div 128 mod 2"
  by (simp add: and_one_eq drop_bit_eq_div)

lemma or_128: "(x mod 128) OR 128 = x mod 128 + (128::int)"
proof -
  have "\<not> bit (take_bit 7 x) n \<or> \<not> bit ((2::int) ^ 7) n" for n
    by (simp only: bit_take_bit_iff bit_exp_iff) auto
  then have "take_bit 7 x + 2 ^ 7 = take_bit 7 x OR 2 ^ 7"
    by (rule disjunctive_add)
  then show ?thesis by (simp add: take_bit_eq_mod)
qed

lemma uint_byte_bounds: "0 \<le> uint (b::byte) \<and> uint b < 256"
  using uint_bounded [of b] by simp

lemma high_bit_byte: "uint (b::byte) div 128 mod 2 = 0 \<longleftrightarrow> uint b < 128"
proof (cases "uint b < 128")
  case True
  then show ?thesis by simp
next
  case False
  with uint_byte_bounds [of b] have "uint b div 128 = 1"
    by (intro int_div_pos_eq [where r = "uint b - 128"]) auto
  with False show ?thesis by simp
qed

lemma uint_word_of_int_byte: "0 \<le> x \<Longrightarrow> x < 256 \<Longrightarrow> uint (word_of_int x :: byte) = x"
  by (simp add: uint_word_of_int take_bit_int_eq_self)

lemma to_bytes_Suc_0:
  "to_bytes x (Suc 0) = (if x < 0 \<or> 256 \<le> x then Inl OverflowError else Inr [word_of_int x])"
  by (simp add: to_bytes_def)

lemma to_bytes_1:
  "to_bytes x 1 = (if x < 0 \<or> 256 \<le> x then Inl OverflowError else Inr [word_of_int x])"
  by (simp add: to_bytes_def)

lemma timedelta_loop_step:
  "timedelta_loop td len (b # f) =
     (if uint b < 128 then (td * 128 + uint b, len + 1, f)
      else timedelta_loop (td * 128 + (uint b - 128)) (len + 1) f)"
proof -
  have "uint b mod 128 = (if uint b < 128 then uint b else uint b - 128)"
    using uint_byte_bounds [of b] by (auto simp: mod_pos_pos_trivial intro: int_mod_pos_eq [where q = 1])
  then show ?thesis
    by (simp add: timedelta_loop_Cons high_bit_arith high_bit_byte and_127 push_bit_eq_mult)
qed

lemma td_loop_zero: "td_loop 0 first r = Some (Inr r)"
  by (simp add: td_loop.simps)

lemma td_loop_step:
  assumes "0 < td"
  shows "td_loop td first r =
     td_loop (td div 128) False
       (word_of_int (if first then td mod 128 else td mod 128 + 128) # r)"
proof -
  have bounds: "0 \<le> td mod 128" "td mod 128 < 128" "\<not> 128 \<le> td mod 128"
    "\<not> 256 \<le> td mod 128" "\<not> td mod 128 < 0" "\<not> td mod 128 + 128 < 0"
    by simp_all
  show ?thesis
    using assms
    by (subst td_loop.simps)
      (simp only: Let_def and_127 or_128 to_bytes_Suc_0 to_bytes_1 drop_bit_eq_div bounds
        if_True if_False simp_thms sum.case append_Cons append_Nil add_less_cancel_right
        split: if_splits, auto simp: bounds)
qed

lemma bit7_iff: "bit (b::byte) 7 \<longleftrightarrow> \<not> uint b < 128"
proof -
  have "bit b 7 \<longleftrightarrow> bit (uint b) 7"
    by (simp add: bit_uint_iff)
  also have "\<dots> \<longleftrightarrow> odd (drop_bit 7 (uint b))"
    by (rule bit_iff_odd_drop_bit)
  also have "\<dots> \<longleftrightarrow> uint b div 128 mod 2 \<noteq> 0"
    by (simp add: drop_bit_eq_div even_iff_mod_2_eq_zero)
  finally show ?thesis
    by (simp add: high_bit_byte)
qed

lemma td_loop_pos:
  "0 < td \<Longrightarrow>
   \<exists>bs. td_loop td first r = Some (Inr (bs @ r)) \<and> bs \<noteq> []
      \<and> 128 ^ (length bs - 1) \<le> td \<and> td < 128 ^ length bs
      \<and> (\<forall>acc len rest. timedelta_loop acc len (bs @ rest) =
            (if first then (acc * 128 ^ length bs + td, len + int (length bs), rest)
             else timedelta_loop (acc * 128 ^ length bs + td) (len + int (length bs)) rest))
      \<and> (\<forall>i<length bs - 1. bit (bs ! i) 7) \<and> (bit (last bs) 7 \<longleftrightarrow> \<not> first)"
proof (induction "nat td" arbitrary: td first r rule: less_induct)
  case less
  define m where "m = td mod 128"
  define q where "q = td div 128"
  define b :: byte where "b = word_of_int (if first then m else m + 128)"
  have m: "0 \<le> m" "m < 128" by (simp_all add: m_def)
  have td: "td = q * 128 + m" by (simp add: m_def q_def)
  have q0: "0 \<le> q" using less.prems by (simp add: q_def pos_imp_zdiv_nonneg_iff)
  have ub: "uint b = (if first then m else m + 128)"
    using m by (simp add: b_def uint_word_of_int_byte)
  have step: "td_loop td first r = td_loop q False (b # r)"
    using td_loop_step [OF less.prems, of first r] by (simp add: m_def q_def b_def)
  have dec: "timedelta_loop acc len (b # rest) =
      (if first then (acc * 128 + m, len + 1, rest)
       else timedelta_loop (acc * 128 + m) (len + 1) rest)" for acc len rest
    using m by (simp add: timedelta_loop_step ub)
  have bit: "bit b 7 \<longleftrightarrow> \<not> first"
    using m by (simp add: bit7_iff ub)
  show ?case
  proof (cases "q = 0")
    case True
    have "td_loop td first r = Some (Inr ([b] @ r))"
      by (simp add: step True td_loop_zero)
    moreover have "1 \<le> td" using less.prems by simp
    moreover have "td < 128" using m td True by simp
    ultimately show ?thesis
      using dec bit td True
      by (intro exI [of _ "[b]"]) simp
  next
    case False
    with q0 have qpos: "0 < q" by simp
    have "nat q < nat td"
      using qpos m td by simp
    from less.hyps [OF this qpos, of False "b # r"]
    obtain bs where bs: "td_loop q False (b # r) = Some (Inr (bs @ b # r))" "bs \<noteq> []"
      "128 ^ (length bs - 1) \<le> q" "q < 128 ^ length bs"
      and bdec: "\<And>acc len rest. timedelta_loop acc len (bs @ rest) =
            timedelta_loop (acc * 128 ^ length bs + q) (len + int (length bs)) rest"
      and bbits: "\<forall>i<length bs - 1. bit (bs ! i) 7" "bit (last bs) 7"
      by auto
    have len: "length bs = Suc (length bs - 1)" using bs(2) by (cases bs) simp_all
    have p1: "(128::int) ^ length bs \<le> td"
    proof -
      have "(128::int) ^ length bs = 128 * 128 ^ (length bs - 1)"
        by (subst len) simp
      also have "\<dots> \<le> 128 * q" using bs(3) by simp
      also have "\<dots> \<le> td" using m td by simp
      finally show ?thesis .
    qed
    have p2: "td < 128 ^ Suc (length bs)"
    proof -
      have "td < 128 * (q + 1)" using m td by simp
      also have "\<dots> \<le> 128 * 128 ^ length bs" using bs(4) by simp
      finally show ?thesis by simp
    qed
    have p3: "timedelta_loop acc len ((bs @ [b]) @ rest) =
        (if first then (acc * 128 ^ Suc (length bs) + td, len + int (Suc (length bs)), rest)
         else timedelta_loop (acc * 128 ^ Suc (length bs) + td) (len + int (Suc (length bs))) rest)"
      for acc len rest
      using bdec [of acc len "b # rest"] dec [of "acc * 128 ^ length bs + q" "len + int (length bs)" rest]
      by (simp add: td algebra_simps)
    have p4: "\<forall>i<length (bs @ [b]) - 1. bit ((bs @ [b]) ! i) 7"
    proof (intro allI impI)
      fix i assume "i < length (bs @ [b]) - 1"
      then have i: "i < length bs" by simp
      show "bit ((bs @ [b]) ! i) 7"
      proof (cases "i < length bs - 1")
        case True
        with bbits(1) i show ?thesis by (simp add: nth_append)
      next
        case False
        with i have "i = length bs - 1" by simp
        with bbits(2) bs(2) i show ?thesis by (simp add: nth_append last_conv_nth)
      qed
    qed
    have "td_loop td first r = Some (Inr ((bs @ [b]) @ r))"
      by (simp add: step bs(1))
    with p1 p2 p3 p4 bit show ?thesis
      by (intro exI [of _ "bs @ [b]"]) simp
  qed
qed

lemma timedelta_loop_bound:
  "timedelta_loop acc len f = (v, n, rest) \<Longrightarrow> 0 \<le> acc \<Longrightarrow>
     len < n \<and> v < (acc + 1) * 128 ^ nat (n - len)"
proof (induction f arbitrary: acc len)
  case Nil
  then show ?case
    by (auto simp: timedelta_loop_Nil push_bit_eq_mult)
next
  case (Cons b f)
  show ?case
  proof (cases "uint b < 128")
    case True
    with Cons.prems show ?thesis
      by (auto simp: timedelta_loop_step)
  next
    case False
    define acc' where "acc' = acc * 128 + (uint b - 128)"
    from False Cons.prems(1) have "timedelta_loop acc' (len + 1) f = (v, n, rest)"
      by (simp add: timedelta_loop_step acc'_def)
    moreover have a0: "0 \<le> acc'"
      using False Cons.prems(2) by (simp add: acc'_def)
    ultimately have ih: "len + 1 < n" "v < (acc' + 1) * 128 ^ nat (n - (len + 1))"
      using Cons.IH [of acc' "len + 1"] by simp_all
    have "acc' + 1 \<le> (acc + 1) * 128"
      using uint_byte_bounds [of b] by (simp add: acc'_def algebra_simps)
    then have "(acc' + 1) * 128 ^ nat (n - (len + 1)) \<le> (acc + 1) * 128 * 128 ^ nat (n - (len + 1))"
      by (intro mult_right_mono) simp_all
    also have "\<dots> = (acc + 1) * 128 ^ Suc (nat (n - (len + 1)))"
      by simp
    also have "Suc (nat (n - (len + 1))) = nat (n - len)"
      using ih(1) by simp
    finally show ?thesis
      using ih by simp
  qed
qed

lemma to_file_timedelta_nonneg:
  assumes "0 \<le> v"
  shows "\<exists>bs. to_file_timedelta v = Some (Inr bs)
      \<and> (\<forall>rest. timedelta_loop 0 0 (bs @ rest) = (v, int (length bs), rest))
      \<and> bs \<noteq> [] \<and> (\<forall>i<length bs - 1. bit (bs ! i) 7) \<and> \<not> bit (last bs) 7
      \<and> (length bs = 1 \<or> 128 ^ (length bs - 1) \<le> v)
      \<and> (v = 0 \<longrightarrow> bs = [0])"
proof (cases "v = 0")
  case True
  have "to_file_timedelta 0 = Some (Inr [0])"
    by (simp add: to_file_timedelta_def td_loop_zero)
  moreover have "timedelta_loop 0 0 ([0] @ rest) = (0, int (length [0::byte]), rest)" for rest
    by (simp add: timedelta_loop_step)
  moreover have "\<not> bit (0::byte) 7"
    by simp
  ultimately show ?thesis
    using True by (intro exI [of _ "[0]"]) simp
next
  case False
  with assms have "0 < v" by simp
  from td_loop_pos [OF this, of True "[]"]
  obtain bs where bs: "td_loop v True [] = Some (Inr bs)" "bs \<noteq> []"
    "128 ^ (length bs - 1) \<le> v"
    and dec: "\<And>acc len rest. timedelta_loop acc len (bs @ rest) =
       (acc * 128 ^ length bs + v, len + int (length bs), rest)"
    and bits: "\<forall>i<length bs - 1. bit (bs ! i) 7" "\<not> bit (last bs) 7"
    by auto
  have "to_file_timedelta v = Some (Inr bs)"
    using bs by (simp add: to_file_timedelta_def)
  moreover have "timedelta_loop 0 0 (bs @ rest) = (v, int (length bs), rest)" for rest
    using dec [of 0 0 rest] by simp
  ultimately show ?thesis
    using bs bits False by (intro exI [of _ bs]) simp
qed

text \<open>
  C4: for every \<open>v \<ge> 0\<close> the delta-time bytes that \<open>to_file\<close> writes are read back by
  the delta-time loop of \<open>__init__\<close> as \<open>v\<close>, consuming exactly those bytes; every byte
  but the last has its top bit set and the last has it clear; no byte sequence that the
  loop reads as \<open>v\<close> is shorter; and 0 is written as the single byte 0.
\<close>

theorem varlen_round_trip:
  assumes "0 \<le> v"
  shows "\<exists>bs. to_file_timedelta v = Some (Inr bs)
      \<and> timedelta_loop 0 0 (bs @ rest) = (v, int (length bs), rest)
      \<and> bs \<noteq> [] \<and> (\<forall>i<length bs - 1. bit (bs ! i) 7) \<and> \<not> bit (last bs) 7
      \<and> (\<forall>cs n r. timedelta_loop 0 0 cs = (v, n, r) \<longrightarrow> int (length bs) \<le> n)
      \<and> (v = 0 \<longrightarrow> bs = [0])"
proof -
  from to_file_timedelta_nonneg [OF assms]
  obtain bs where bs: "to_file_timedelta v = Some (Inr bs)"
    "\<forall>rest. timedelta_loop 0 0 (bs @ rest) = (v, int (length bs), rest)"
    "bs \<noteq> []" "\<forall>i<length bs - 1. bit (bs ! i) 7" "\<not> bit (last bs) 7"
    "length bs = 1 \<or> 128 ^ (length bs - 1) \<le> v" "v = 0 \<longrightarrow> bs = [0]"
    by blast
  have "int (length bs) \<le> n" if cs: "timedelta_loop 0 0 cs = (v, n, r)" for cs n r
  proof (rule ccontr)
    assume "\<not> int (length bs) \<le> n"
    then have less: "n < int (length bs)" by simp
    from timedelta_loop_bound [OF cs] have n: "0 < n" "v < 128 ^ nat n"
      by simp_all
    from less n(1) have "length bs \<noteq> 1" by simp
    with bs(6) have big: "128 ^ (length bs - 1) \<le> v" by simp
    from less n(1) have "nat n \<le> length bs - 1" by simp
    then have "(128::int) ^ nat n \<le> 128 ^ (length bs - 1)"
      by (intro power_increasing) simp_all
    from order_trans [OF this big] n(2) show False by simp
  qed
  with bs show ?thesis
    by (intro exI [of _ bs]) simp
qed

theorem varlen_round_trip_witness: "(0::int) \<le> 16384 \<and> to_file_timedelta 16384 = Some (Inr [0x81, 0x80, 0x00])
   \<and> timedelta_loop 0 0 [0x81, 0x80, 0x00] = (16384, 3, [])"
proof -
  have t: "to_file_timedelta 16384 = Some (Inr [0x81, 0x80, 0x00])"
    by (simp add: to_file_timedelta_def td_loop.simps to_bytes_def)
  from varlen_round_trip [of 16384 "[]"] show ?thesis
    by (simp add: t)
qed

section \<open>Delta-times that are not in their shortest form\<close>

lemma timedelta_loop_nonneg:
  "timedelta_loop acc len f = (v, n, rest) \<Longrightarrow> 0 \<le> acc \<Longrightarrow> 0 \<le> v"
proof (induction f arbitrary: acc len)
  case Nil
  then show ?case
    by (auto simp: timedelta_loop_Nil push_bit_eq_mult)
next
  case (Cons b f)
  show ?case
  proof (cases "uint b < 128")
    case True
    with Cons.prems show ?thesis
      by (auto simp: timedelta_loop_step)
  next
    case False
    with Cons.prems(1)
    have "timedelta_loop (acc * 128 + (uint b - 128)) (len + 1) f = (v, n, rest)"
      by (simp add: timedelta_loop_step)
    moreover have "0 \<le> acc * 128 + (uint b - 128)"
      using False Cons.prems(2) by simp
    ultimately show ?thesis
      by (rule Cons.IH)
  qed
qed

lemma timedelta_loop_shift:
  "timedelta_loop td (len + c) f =
     (fst (timedelta_loop td len f), fst (snd (timedelta_loop td len f)) + c,
      snd (snd (timedelta_loop td len f)))"
proof (induction f arbitrary: td len c)
  case Nil
  show ?case by (simp add: timedelta_loop_Nil)
next
  case (Cons b f)
  show ?case
    by (simp add: timedelta_loop_step Cons.IH)
qed

lemma ignore_loop_shift:
  "ignore_loop tr num (len + c) f =
     (fst (ignore_loop tr num len f), fst (snd (ignore_loop tr num len f)),
      fst (snd (snd (ignore_loop tr num len f))) + c,
      snd (snd (snd (ignore_loop tr num len f))))"
proof (induction f arbitrary: tr num len c)
  case Nil
  show ?case by (simp add: ignore_loop_Nil)
next
  case (Cons b f)
  show ?case
    by (simp add: ignore_loop_Cons Cons.IH)
qed

lemma MidiEvent_dispatch_shift:
  "MidiEvent_dispatch td (len + c) f =
     (case MidiEvent_dispatch td len f of
        Inl e \<Rightarrow> Inl e
      | Inr (ev, r) \<Rightarrow> Inr (ev\<lparr>pe_length := pe_length ev + c\<rparr>, r))"
  by (simp add: MidiEvent_dispatch_def ignore_loop_shift Let_def split_beta read_bytes_def)

lemma MidiEvent_init_0x80:
  "MidiEvent_init (0x80 # f) =
     (case MidiEvent_init f of
        Inl e \<Rightarrow> Inl e
      | Inr (ev, r) \<Rightarrow> Inr (ev\<lparr>pe_length := pe_length ev + 1\<rparr>, r))"
proof -
  have "timedelta_loop 0 0 (0x80 # f) = timedelta_loop 0 (0 + 1) f"
    by (simp add: timedelta_loop_step)
  then show ?thesis
    by (simp only: MidiEvent_init_def timedelta_loop_shift Let_def split_beta fst_conv snd_conv
        MidiEvent_dispatch_shift)
qed

lemma MidiEvent_to_file_pe_length: "MidiEvent_to_file (ev\<lparr>pe_length := x\<rparr>) = MidiEvent_to_file ev"
  by (simp add: MidiEvent_to_file_def cong: option.case_cong sum.case_cong)

lemma encoding_shortest:
  assumes "length bs = 1 \<or> 128 ^ (length bs - 1) \<le> v"
    and cs: "timedelta_loop 0 0 cs = (v, n, r)"
  shows "int (length bs) \<le> n"
proof (rule ccontr)
  assume "\<not> int (length bs) \<le> n"
  then have less: "n < int (length bs)" by simp
  from timedelta_loop_bound [OF cs] have n: "0 < n" "v < 128 ^ nat n"
    by simp_all
  from less n(1) have "length bs \<noteq> 1" by simp
  with assms(1) have big: "128 ^ (length bs - 1) \<le> v" by simp
  from less n(1) have "nat n \<le> length bs - 1" by simp
  then have "(128::int) ^ nat n \<le> 128 ^ (length bs - 1)"
    by (intro power_increasing) simp_all
  from order_trans [OF this big] n(2) show False by simp
qed

section \<open>Serializing a track\<close>

lemma from_bytes_snoc: "from_bytes (bs @ [b]) = from_bytes bs * 256 + uint b"
  by (simp add: from_bytes_def)

lemma length_to_bytes_digits: "length (to_bytes_digits k x) = k"
  by (induction k arbitrary: x) simp_all

lemma uint_word_of_int_mod: "uint (word_of_int x :: byte) = x mod 256"
  by (simp add: uint_word_of_int take_bit_eq_mod)

lemma from_bytes_to_bytes_digits:
  "0 \<le> x \<Longrightarrow> x < 256 ^ k \<Longrightarrow> from_bytes (to_bytes_digits k x) = x"
proof (induction k arbitrary: x)
  case 0
  then show ?case by (simp add: from_bytes_def)
next
  case (Suc k)
  have "0 \<le> x div 256"
    using Suc.prems(1) by (simp add: pos_imp_zdiv_nonneg_iff)
  moreover have "x div 256 < 256 ^ k"
  proof (rule ccontr)
    assume "\<not> x div 256 < 256 ^ k"
    then have "256 * 256 ^ k \<le> 256 * (x div 256)" by simp
    also have "\<dots> \<le> x" by (simp add: Suc.prems(1))
    finally show False using Suc.prems(2) by simp
  qed
  ultimately have "from_bytes (to_bytes_digits k (x div 256)) = x div 256"
    by (rule Suc.IH)
  then show ?case
    by (simp add: from_bytes_snoc uint_word_of_int_mod)
qed

lemma events_to_file_concat:
  "list_all2 (\<lambda>ev b. MidiEvent_to_file ev = Some (Inr b)) evs bs \<Longrightarrow>
     events_to_file acc evs = Some (Inr (acc @ concat bs))"
  by (induction evs bs arbitrary: acc rule: list_all2_induct) simp_all

text \<open>
  C6: for every track whose events serialize (to the byte strings \<open>bs\<close>, fewer than
  \<open>2^32\<close> bytes together), \<open>to_file\<close> is \<open>MTrk\<close>, then four bytes that read
  back, big-endian, as the length of the concatenation of \<open>bs\<close>, then that
  concatenation. A \<open>MidiTrack\<close> holds its events only: the length the file declared
  is not kept, so the prefix can only be recomputed.
\<close>

theorem track_to_file_recomputes_length:
  assumes "list_all2 (\<lambda>ev b. MidiEvent_to_file ev = Some (Inr b)) (events tr) bs"
    and "length (concat bs) < 2 ^ 32"
  shows "\<exists>n4. MidiTrack_to_file tr = Some (Inr (MTrk @ n4 @ concat bs))
      \<and> length n4 = 4 \<and> from_bytes n4 = int (length (concat bs))"
proof -
  have small: "int (length (concat bs)) < 256 ^ 4"
    using assms(2) by simp
  have "MidiTrack_to_file tr =
      Some (Inr (MTrk @ to_bytes_digits 4 (int (length (concat bs))) @ concat bs))"
    using events_to_file_concat [OF assms(1), of "[]"] small
    by (simp add: MidiTrack_to_file_def to_bytes_def)
  moreover have "from_bytes (to_bytes_digits 4 (int (length (concat bs)))) = int (length (concat bs))"
    using small by (intro from_bytes_to_bytes_digits) simp_all
  ultimately show ?thesis
    by (intro exI [of _ "to_bytes_digits 4 (int (length (concat bs)))"])
      (simp add: length_to_bytes_digits)
qed

theorem track_to_file_recomputes_length_witness:
  "list_all2 (\<lambda>ev b. MidiEvent_to_file ev = Some (Inr b))
     (events \<lparr>events = [\<lparr>pe_length = 4, timedelta = 0, note = Some 60, velocity = Some 64,
         channel = Some 0, p_trailing_ignore = [], p_event_info = 144\<rparr>,
       \<lparr>pe_length = 4, timedelta = 0, note = None, velocity = None,
         channel = None, p_trailing_ignore = [0x2F, 0x00], p_event_info = 255\<rparr>]\<rparr>)
     [[0x00, 0x90, 0x3C, 0x40], [0x00, 0xFF, 0x2F, 0x00]]
   \<and> (\<exists>n4. MidiTrack_to_file \<lparr>events = [\<lparr>pe_length = 4, timedelta = 0, note = Some 60,
         velocity = Some 64, channel = Some 0, p_trailing_ignore = [], p_event_info = 144\<rparr>,
       \<lparr>pe_length = 4, timedelta = 0, note = None, velocity = None,
         channel = None, p_trailing_ignore = [0x2F, 0x00], p_event_info = 255\<rparr>]\<rparr>
       = Some (Inr (MTrk @ n4 @ [0x00, 0x90, 0x3C, 0x40, 0x00, 0xFF, 0x2F, 0x00]))
       \<and> length n4 = 4 \<and> from_bytes n4 = 8)"
proof -
  have h: "list_all2 (\<lambda>ev b. MidiEvent_to_file ev = Some (Inr b))
     (events \<lparr>events = [\<lparr>pe_length = 4, timedelta = 0, note = Some 60, velocity = Some 64,
         channel = Some 0, p_trailing_ignore = [], p_event_info = 144\<rparr>,
       \<lparr>pe_length = 4, timedelta = 0, note = None, velocity = None,
         channel = None, p_trailing_ignore = [0x2F, 0x00], p_event_info = 255\<rparr>]\<rparr>)
     [[0x00, 0x90, 0x3C, 0x40], [0x00, 0xFF, 0x2F, 0x00]]"
    by (simp add: MidiEvent_to_file_def to_file_timedelta_def td_loop_zero to_bytes_1
        to_bytes_Suc_0)
  from track_to_file_recomputes_length [OF h] h show ?thesis
    by simp
qed


section \<open>Serializing an event\<close>

text \<open>
  C7, as stated, fails: \<open>to_bytes(1)\<close> raises OverflowError for a value outside 0 to 255.
  The event below has a note and a velocity and a delta-time of 0, and its note is 260
  (the note 60 shifted by 200): \<open>to_file\<close> raises.
\<close>

theorem to_file_overflow_counterexample:
  "(note \<lparr>pe_length = 4, timedelta = 0, note = Some 260, velocity = Some 64,
           channel = Some 0, p_trailing_ignore = [], p_event_info = 144\<rparr> = None)
     = (velocity \<lparr>pe_length = 4, timedelta = 0, note = Some 260, velocity = Some 64,
           channel = Some 0, p_trailing_ignore = [], p_event_info = 144\<rparr> = None)
   \<and> 0 \<le> timedelta \<lparr>pe_length = 4, timedelta = 0, note = Some 260, velocity = Some 64,
           channel = Some 0, p_trailing_ignore = [], p_event_info = 144\<rparr>
   \<and> MidiEvent_to_file \<lparr>pe_length = 4, timedelta = 0, note = Some 260, velocity = Some 64,
           channel = Some 0, p_trailing_ignore = [], p_event_info = 144\<rparr>
       = Some (Inl OverflowError)"
  by (simp add: MidiEvent_to_file_def to_file_timedelta_def td_loop_zero to_bytes_1 to_bytes_Suc_0)

text \<open>
  C7, amended: for every event whose delta-time is not negative, whose note and velocity
  are both set or both absent, and whose status byte, note and velocity lie in 0 to 255,
  \<open>to_file\<close> returns the delta-time bytes, the status byte, the note and the velocity
  when they are set, and the bytes kept aside; the bytes written for the note and the
  velocity read back as the stored values, also above 127.
\<close>

theorem to_file_total_on_bytes:
  assumes "0 \<le> timedelta ev" and "(note ev = None) = (velocity ev = None)"
    and "0 \<le> p_event_info ev" and "p_event_info ev < 256"
    and "\<forall>n. note ev = Some n \<longrightarrow> 0 \<le> n \<and> n < 256"
    and "\<forall>v. velocity ev = Some v \<longrightarrow> 0 \<le> v \<and> v < 256"
  shows "\<exists>tb out. to_file_timedelta (timedelta ev) = Some (Inr tb)
      \<and> MidiEvent_to_file ev = Some (Inr out)
      \<and> (note ev = None \<longrightarrow>
            out = tb @ [word_of_int (p_event_info ev)] @ p_trailing_ignore ev)
      \<and> (\<forall>n v. note ev = Some n \<and> velocity ev = Some v \<longrightarrow>
            out = tb @ [word_of_int (p_event_info ev), word_of_int n, word_of_int v]
                  @ p_trailing_ignore ev
            \<and> uint (word_of_int n :: byte) = n \<and> uint (word_of_int v :: byte) = v)
      \<and> uint (word_of_int (p_event_info ev) :: byte) = p_event_info ev"
proof -
  from to_file_timedelta_nonneg [OF assms(1)]
  obtain tb where tb: "to_file_timedelta (timedelta ev) = Some (Inr tb)"
    by blast
  show ?thesis
  proof (cases "note ev")
    case None
    with assms tb show ?thesis
      by (simp add: MidiEvent_to_file_def to_bytes_1 to_bytes_Suc_0 uint_word_of_int_byte)
  next
    case (Some n)
    with assms(2) obtain v where v: "velocity ev = Some v"
      by (cases "velocity ev") auto
    from Some v assms(5,6) have r: "0 \<le> n" "n < 256" "0 \<le> v" "v < 256"
      by simp_all
    with Some v assms(3,4) tb show ?thesis
      by (simp add: MidiEvent_to_file_def to_bytes_1 to_bytes_Suc_0 uint_word_of_int_byte)
  qed
qed

theorem to_file_total_on_bytes_witness:
  "0 \<le> timedelta \<lparr>pe_length = 5, timedelta = 128, note = Some 200, velocity = Some 255,
           channel = Some 0, p_trailing_ignore = [], p_event_info = 144\<rparr>
   \<and> MidiEvent_to_file \<lparr>pe_length = 5, timedelta = 128, note = Some 200, velocity = Some 255,
           channel = Some 0, p_trailing_ignore = [], p_event_info = 144\<rparr>
       = Some (Inr [0x81, 0x00, 0x90, 200, 255])
   \<and> uint (200 :: byte) = 200 \<and> uint (255 :: byte) = 255"
proof -
  have t: "to_file_timedelta 128 = Some (Inr [0x81, 0x00])"
    by (simp add: to_file_timedelta_def td_loop.simps to_bytes_def)
  from to_file_total_on_bytes [of "\<lparr>pe_length = 5, timedelta = 128, note = Some 200,
      velocity = Some 255, channel = Some 0, p_trailing_ignore = [], p_event_info = 144\<rparr>"]
  show ?thesis
    by (simp add: t)
qed

section \<open>The loop of a track and the declared length\<close>

lemma read_bytes_1: "read_bytes len f 1 = (take 1 f, len + 1, drop 1 f)"
  by (simp add: read_bytes_def read_def)

lemma MidiEvent_dispatch_bad:
  "drop_bit 4 (from_bytes (take 1 f1)) < 8 \<Longrightarrow>
     MidiEvent_dispatch td len f1 = Inl (MIDIError event_type_message)"
  by (simp add: MidiEvent_dispatch_def read_bytes_1)

lemma MidiEvent_init_bad:
  "timedelta_loop 0 0 f = (td, n, f1) \<Longrightarrow> drop_bit 4 (from_bytes (take 1 f1)) < 8 \<Longrightarrow>
     MidiEvent_init f = Inl (MIDIError event_type_message)"
  by (simp add: MidiEvent_init_def MidiEvent_dispatch_bad)

lemma ignore_loop_grows:
  "ignore_loop tr num len f = (tr', num', len', f') \<Longrightarrow> 0 \<le> num \<Longrightarrow> 0 \<le> num' \<and> len < len'"
proof (induction f arbitrary: tr num len)
  case Nil
  then show ?case by (auto simp: ignore_loop_Nil)
next
  case (Cons b f)
  have m: "0 \<le> uint b AND 127"
    by (simp add: and_127)
  show ?case
  proof (cases "drop_bit 7 (uint b) AND 1 = 0")
    case True
    with Cons.prems m show ?thesis
      by (auto simp: ignore_loop_Cons)
  next
    case False
    with Cons.prems(1)
    have "ignore_loop (tr @ [b]) (num + (uint b AND 127)) (len + 1) f = (tr', num', len', f')"
      by (simp add: ignore_loop_Cons)
    from Cons.IH [OF this] Cons.prems(2) m show ?thesis
      by simp
  qed
qed

lemma ignore_loop_grows_0:
  "ignore_loop tr 0 len f = (tr', num', len', f') \<Longrightarrow> 0 \<le> num' \<and> len < len'"
  by (erule ignore_loop_grows) simp

lemma MidiEvent_dispatch_length:
  assumes "MidiEvent_dispatch td len f = Inr (ev, r)"
  shows "len < pe_length ev"
  using assms
  by (auto simp: MidiEvent_dispatch_def Let_def read_bytes_def split: if_splits prod.splits
      dest!: ignore_loop_grows_0)

lemma MidiEvent_init_length:
  assumes "MidiEvent_init f = Inr (ev, r)"
  shows "2 \<le> pe_length ev"
proof -
  obtain td n f1 where t: "timedelta_loop 0 0 f = (td, n, f1)"
    by (cases "timedelta_loop 0 0 f") auto
  from timedelta_loop_bound [OF t] have "0 < n" by simp
  moreover from assms t have "MidiEvent_dispatch td n f1 = Inr (ev, r)"
    by (simp add: MidiEvent_init_def)
  from MidiEvent_dispatch_length [OF this] have "n < pe_length ev" .
  ultimately show ?thesis by simp
qed

lemma read_events_lengths:
  "read_events k f = Inr (evs, f') \<Longrightarrow> length evs = k \<and> (\<forall>ev\<in>set evs. 2 \<le> pe_length ev)"
proof (induction k arbitrary: f evs)
  case 0
  then show ?case by simp
next
  case (Suc k)
  from Suc.prems obtain ev f1 evs' where
    e: "MidiEvent_init f = Inr (ev, f1)" and r: "read_events k f1 = Inr (evs', f')"
    and evs: "evs = ev # evs'"
    by (auto split: sum.splits)
  from Suc.IH [OF r] MidiEvent_init_length [OF e] evs show ?case
    by simp
qed

lemma sum_list_pe_length_nonneg:
  "\<forall>ev\<in>set evs. 2 \<le> pe_length ev \<Longrightarrow> 0 \<le> sum_list (map pe_length evs)"
  by (induction evs) auto

lemma track_loop_read_events:
  "read_events k f = Inr (evs, f') \<Longrightarrow> sum_list (map pe_length evs) = L \<Longrightarrow>
     track_loop L acc f = Inr (acc @ evs, f')"
proof (induction k arbitrary: f evs L acc)
  case 0
  then show ?case by (simp add: track_loop.simps)
next
  case (Suc k)
  from Suc.prems(1) obtain ev f1 evs' where
    e: "MidiEvent_init f = Inr (ev, f1)" and r: "read_events k f1 = Inr (evs', f')"
    and evs: "evs = ev # evs'"
    by (auto split: sum.splits)
  from read_events_lengths [OF r] have "0 \<le> sum_list (map pe_length evs')"
    by (intro sum_list_pe_length_nonneg) simp
  with MidiEvent_init_length [OF e] Suc.prems(2) evs have L: "L \<noteq> 0" "sum_list (map pe_length evs') = L - pe_length ev"
    by auto
  from Suc.IH [OF r L(2), of "acc @ [ev]"] L(1) e evs show ?case
    by (subst track_loop.simps) simp
qed

lemma track_loop_error:
  "read_events k f = Inr (evs, f1) \<Longrightarrow> sum_list (map pe_length evs) < L \<Longrightarrow>
     MidiEvent_init f1 = Inl e \<Longrightarrow> track_loop L acc f = Inl e"
proof (induction k arbitrary: f evs L acc)
  case 0
  then show ?case by (subst track_loop.simps) simp
next
  case (Suc k)
  from Suc.prems(1) obtain ev f2 evs' where
    e: "MidiEvent_init f = Inr (ev, f2)" and r: "read_events k f2 = Inr (evs', f1)"
    and evs: "evs = ev # evs'"
    by (auto split: sum.splits)
  from read_events_lengths [OF r] have "0 \<le> sum_list (map pe_length evs')"
    by (intro sum_list_pe_length_nonneg) simp
  with MidiEvent_init_length [OF e] Suc.prems(2) evs have L: "L \<noteq> 0" "sum_list (map pe_length evs') < L - pe_length ev"
    by auto
  from Suc.IH [OF r L(2) Suc.prems(3), of "acc @ [ev]"] L(1) e show ?case
    by (subst track_loop.simps) simp
qed

lemma MidiTrack_init_header:
  assumes "take 4 g = MTrk"
  shows "MidiTrack_init g =
     (case track_loop (from_bytes (take 4 (drop 4 g))) [] (drop 8 g) of
        Inl e \<Rightarrow> Inl e
      | Inr (evs, r) \<Rightarrow> Inr (\<lparr>events = evs\<rparr>, r))"
  using assms by (simp add: MidiTrack_init_def read_def)

lemma MidiTrack_init_not_MTrk: "take 4 g \<noteq> MTrk \<Longrightarrow> MidiTrack_init g = Inl AssertionError"
  by (simp add: MidiTrack_init_def read_def)

lemma tracks_comprehension_error:
  "tracks_comprehension j body = Inr (ts, g) \<Longrightarrow> MidiTrack_init g = Inl e \<Longrightarrow> j < n \<Longrightarrow>
     tracks_comprehension n body = Inl e"
proof (induction j arbitrary: body ts n)
  case 0
  then show ?case by (cases n) simp_all
next
  case (Suc j)
  from Suc.prems(1) obtain t b1 ts' where
    t: "MidiTrack_init body = Inr (t, b1)" and r: "tracks_comprehension j b1 = Inr (ts', g)"
    by (auto split: sum.splits)
  from Suc.prems(3) obtain n' where n: "n = Suc n'" "j < n'"
    by (cases n) simp_all
  from Suc.IH [OF r Suc.prems(2) n(2)] t n(1) show ?case
    by simp
qed

lemma top_bit_test: "drop_bit 15 (d::int) AND 1 = (if bit d 15 then 1 else 0)"
  by (simp add: and_one_eq bit_iff_odd_drop_bit odd_iff_mod_2_eq_one)

lemma MidiFile_init_not_MThd: "take 4 f \<noteq> MThd \<Longrightarrow> MidiFile_init f = Inl AssertionError"
  by (simp add: MidiFile_init_def read_def)

lemma MidiFile_init_header:
  assumes "take 4 f = MThd" and "6 \<le> from_bytes (take 4 (drop 4 f))"
  shows "MidiFile_init f =
     (if bit (from_bytes (take 2 (drop 12 f))) 15 then Inl (MIDIError seconds_message)
      else case tracks_comprehension (nat (from_bytes (take 2 (drop 10 f))))
                  (drop (8 + nat (from_bytes (take 4 (drop 4 f)))) f) of
             Inl e \<Rightarrow> Inl e
           | Inr (ts, r) \<Rightarrow>
               Inr (\<lparr>p_length = from_bytes (take 4 (drop 4 f)),
                     format = from_bytes (take 2 (drop 8 f)),
                     p_num_tracks = from_bytes (take 2 (drop 10 f)),
                     p_division = from_bytes (take 2 (drop 12 f)),
                     division_type = 0,
                     per_quarter_note = from_bytes (take 2 (drop 12 f)) AND 0b11111111111111,
                     p_trailing = take (nat (from_bytes (take 4 (drop 4 f)) - 6)) (drop 14 f),
                     tracks = ts\<rparr>, r))"
proof -
  define hl where "hl = from_bytes (take 4 (drop 4 f))"
  have d: "drop (nat (hl - 6)) (drop 14 f) = drop (8 + nat hl) f"
    using assms(2) by (simp add: hl_def nat_diff_distrib' add.commute)
  show ?thesis
  proof (cases "6 < hl")
    case True
    with assms d show ?thesis
      unfolding hl_def [symmetric]
      by (simp add: MidiFile_init_def read_def top_bit_test Let_def hl_def [symmetric]
          split: sum.splits prod.splits)
  next
    case False
    with assms(2) have "hl = 6" by (simp add: hl_def)
    with assms show ?thesis
      unfolding hl_def [symmetric]
      by (simp add: MidiFile_init_def read_def top_bit_test Let_def hl_def [symmetric]
          split: sum.splits prod.splits)
  qed
qed

lemma prefix_sum_less:
  assumes "\<forall>ev\<in>set evs. 2 \<le> pe_length ev" and "j < length evs"
  shows "sum_list (map pe_length (take j evs)) < sum_list (map pe_length evs)"
proof -
  have "evs = take j evs @ drop j evs" by simp
  then have "sum_list (map pe_length evs) =
      sum_list (map pe_length (take j evs)) + sum_list (map pe_length (drop j evs))"
    by (metis map_append sum_list_append)
  moreover obtain ev rest where d: "drop j evs = ev # rest"
    using assms(2) by (cases "drop j evs") auto
  then have "ev \<in> set evs" "set rest \<subseteq> set evs"
    by (metis in_set_dropD list.set_intros(1), metis set_drop_subset set_subset_Cons subset_trans)
  with assms(1) have "2 \<le> pe_length ev" "0 \<le> sum_list (map pe_length rest)"
    by (auto intro: sum_list_pe_length_nonneg)
  with d have "2 \<le> sum_list (map pe_length (drop j evs))" by simp
  ultimately show ?thesis by simp
qed

text \<open>
  C8: when \<open>k\<close> events read one after the other from the stream have consumed-byte
  counts that sum to the declared length \<open>L\<close>, the loop of \<open>MidiTrack.__init__\<close>
  returns: it has read exactly these events and left the stream after them; before each
  of them the bytes counted so far are fewer than \<open>L\<close>, so the counter is 0 after the
  last one and not before; and \<open>MidiTrack.__init__\<close> on \<open>MTrk\<close>, four bytes that
  declare \<open>L\<close> and the stream builds the track of these events.
\<close>

theorem track_loop_stops_at_zero:
  assumes "read_events k f = Inr (evs, f')" and "sum_list (map pe_length evs) = L"
  shows "track_loop L [] f = Inr (evs, f')
    \<and> (\<forall>j<length evs. sum_list (map pe_length (take j evs)) < L)
    \<and> (\<forall>b4. length b4 = 4 \<and> from_bytes b4 = L \<longrightarrow>
          MidiTrack_init (MTrk @ b4 @ f) = Inr (\<lparr>events = evs\<rparr>, f'))"
proof -
  from track_loop_read_events [OF assms, of "[]"] have t: "track_loop L [] f = Inr (evs, f')"
    by simp
  from read_events_lengths [OF assms(1)] have "\<forall>ev\<in>set evs. 2 \<le> pe_length ev"
    by simp
  then have p: "\<forall>j<length evs. sum_list (map pe_length (take j evs)) < L"
    using prefix_sum_less [of evs] assms(2) by auto
  have "MidiTrack_init (MTrk @ b4 @ f) = Inr (\<lparr>events = evs\<rparr>, f')"
    if "length b4 = 4" "from_bytes b4 = L" for b4
  proof -
    have "take 4 (MTrk @ b4 @ f) = MTrk" by (simp add: MTrk_def)
    from MidiTrack_init_header [OF this] that t show ?thesis
      by (simp add: MTrk_def)
  qed
  with t p show ?thesis by blast
qed

theorem track_loop_stops_at_zero_witness:
  "read_events (Suc (Suc 0)) [0x00, 0x90, 0x3C, 0x40, 0x60, 0x80, 0x3C, 0x00, 0x4D] =
     Inr ([\<lparr>pe_length = 4, timedelta = 0, note = Some 60, velocity = Some 64,
             channel = Some 0, p_trailing_ignore = [], p_event_info = 144\<rparr>,
           \<lparr>pe_length = 4, timedelta = 96, note = Some 60, velocity = Some 0,
             channel = Some 0, p_trailing_ignore = [], p_event_info = 128\<rparr>], [0x4D])
   \<and> MidiTrack_init (MTrk @ [0, 0, 0, 8]
         @ [0x00, 0x90, 0x3C, 0x40, 0x60, 0x80, 0x3C, 0x00, 0x4D]) =
     Inr (\<lparr>events = [\<lparr>pe_length = 4, timedelta = 0, note = Some 60, velocity = Some 64,
             channel = Some 0, p_trailing_ignore = [], p_event_info = 144\<rparr>,
           \<lparr>pe_length = 4, timedelta = 96, note = Some 60, velocity = Some 0,
             channel = Some 0, p_trailing_ignore = [], p_event_info = 128\<rparr>]\<rparr>, [0x4D])"
proof -
  have r: "read_events (Suc (Suc 0)) [0x00, 0x90, 0x3C, 0x40, 0x60, 0x80, 0x3C, 0x00, 0x4D] =
     Inr ([\<lparr>pe_length = 4, timedelta = 0, note = Some 60, velocity = Some 64,
             channel = Some 0, p_trailing_ignore = [], p_event_info = 144\<rparr>,
           \<lparr>pe_length = 4, timedelta = 96, note = Some 60, velocity = Some 0,
             channel = Some 0, p_trailing_ignore = [], p_event_info = 128\<rparr>], [0x4D])"
    by (simp add: MidiEvent_init_def MidiEvent_dispatch_def timedelta_loop_step
        read_bytes_def read_def from_bytes_def)
  from track_loop_stops_at_zero [OF r, of 8]
  have "length b4 = 4 \<and> from_bytes b4 = 8 \<longrightarrow>
      MidiTrack_init (MTrk @ b4 @ [0x00, 0x90, 0x3C, 0x40, 0x60, 0x80, 0x3C, 0x00, 0x4D]) =
      Inr (\<lparr>events = [\<lparr>pe_length = 4, timedelta = 0, note = Some 60, velocity = Some 64,
             channel = Some 0, p_trailing_ignore = [], p_event_info = 144\<rparr>,
           \<lparr>pe_length = 4, timedelta = 96, note = Some 60, velocity = Some 0,
             channel = Some 0, p_trailing_ignore = [], p_event_info = 128\<rparr>]\<rparr>, [0x4D])" for b4
    by simp
  from this [of "[0, 0, 0, 8]"] r show ?thesis
    by (simp add: from_bytes_def)
qed

section \<open>Rejected input\<close>

text \<open>
  C5: the three rejections, each with the exception the code raises and no object built.
  A file whose first four bytes are not \<open>MThd\<close> fails the assertion of line 23
  (AssertionError, the format error). A file with that header, a declared length of at
  least 6 and the top bit of the division set raises the MIDIError of line 31 (the
  timing error). An event whose status byte, after the delta-time, has a type nibble
  below 8 raises the MIDIError of line 139 (the event error), and so does
  \<open>MidiFile.__init__\<close> when that event follows \<open>k\<close> good events of a track that
  follows \<open>j\<close> good tracks: the exception leaves every loop.
\<close>

theorem parser_rejects_malformed_input:
  "(take 4 f \<noteq> MThd \<longrightarrow> MidiFile_init f = Inl AssertionError)
   \<and> (take 4 f = MThd \<and> 6 \<le> from_bytes (take 4 (drop 4 f))
        \<and> bit (from_bytes (take 2 (drop 12 f))) 15
      \<longrightarrow> MidiFile_init f = Inl (MIDIError seconds_message))
   \<and> (timedelta_loop 0 0 g1 = (td, n1, g2) \<and> drop_bit 4 (from_bytes (take 1 g2)) < 8
      \<longrightarrow> MidiEvent_init g1 = Inl (MIDIError event_type_message)
        \<and> (take 4 f = MThd \<and> 6 \<le> from_bytes (take 4 (drop 4 f))
             \<and> \<not> bit (from_bytes (take 2 (drop 12 f))) 15
             \<and> j < nat (from_bytes (take 2 (drop 10 f)))
             \<and> tracks_comprehension j (drop (8 + nat (from_bytes (take 4 (drop 4 f)))) f)
                 = Inr (ts, g)
             \<and> take 4 g = MTrk \<and> read_events k (drop 8 g) = Inr (evs, g1)
             \<and> sum_list (map pe_length evs) < from_bytes (take 4 (drop 4 g))
           \<longrightarrow> MidiFile_init f = Inl (MIDIError event_type_message)))"
proof (intro conjI impI)
  assume "take 4 f \<noteq> MThd"
  then show "MidiFile_init f = Inl AssertionError"
    by (rule MidiFile_init_not_MThd)
next
  assume "take 4 f = MThd \<and> 6 \<le> from_bytes (take 4 (drop 4 f))
        \<and> bit (from_bytes (take 2 (drop 12 f))) 15"
  then show "MidiFile_init f = Inl (MIDIError seconds_message)"
    by (simp add: MidiFile_init_header)
next
  assume "timedelta_loop 0 0 g1 = (td, n1, g2) \<and> drop_bit 4 (from_bytes (take 1 g2)) < 8"
  then show "MidiEvent_init g1 = Inl (MIDIError event_type_message)"
    by (simp add: MidiEvent_init_bad)
next
  assume ev: "timedelta_loop 0 0 g1 = (td, n1, g2) \<and> drop_bit 4 (from_bytes (take 1 g2)) < 8"
    and h: "take 4 f = MThd \<and> 6 \<le> from_bytes (take 4 (drop 4 f))
             \<and> \<not> bit (from_bytes (take 2 (drop 12 f))) 15
             \<and> j < nat (from_bytes (take 2 (drop 10 f)))
             \<and> tracks_comprehension j (drop (8 + nat (from_bytes (take 4 (drop 4 f)))) f)
                 = Inr (ts, g)
             \<and> take 4 g = MTrk \<and> read_events k (drop 8 g) = Inr (evs, g1)
             \<and> sum_list (map pe_length evs) < from_bytes (take 4 (drop 4 g))"
  from ev have e: "MidiEvent_init g1 = Inl (MIDIError event_type_message)"
    by (simp add: MidiEvent_init_bad)
  from h have hd: "take 4 f = MThd" "6 \<le> from_bytes (take 4 (drop 4 f))"
    "\<not> bit (from_bytes (take 2 (drop 12 f))) 15"
    and j: "j < nat (from_bytes (take 2 (drop 10 f)))"
    and ts: "tracks_comprehension j (drop (8 + nat (from_bytes (take 4 (drop 4 f)))) f)
                 = Inr (ts, g)"
    and g: "take 4 g = MTrk" and r: "read_events k (drop 8 g) = Inr (evs, g1)"
    and less: "sum_list (map pe_length evs) < from_bytes (take 4 (drop 4 g))"
    by simp_all
  from track_loop_error [OF r less e]
  have "track_loop (from_bytes (take 4 (drop 4 g))) [] (drop 8 g)
      = Inl (MIDIError event_type_message)" .
  with g have "MidiTrack_init g = Inl (MIDIError event_type_message)"
    by (simp add: MidiTrack_init_header)
  from tracks_comprehension_error [OF ts this j] hd
  show "MidiFile_init f = Inl (MIDIError event_type_message)"
    by (simp add: MidiFile_init_header)
qed

theorem parser_rejects_malformed_input_witness:
  "MidiFile_init ([0x58, 0x59, 0x5A, 0x5A] @ [0, 0, 0, 6, 0, 1, 0, 1, 0, 0x60]) = Inl AssertionError
   \<and> MidiFile_init (MThd @ [0, 0, 0, 6, 0, 1, 0, 1, 0xE7, 0x28]) = Inl (MIDIError seconds_message)
   \<and> MidiEvent_init [0x00, 0x3C, 0x00] = Inl (MIDIError event_type_message)
   \<and> MidiFile_init (MThd @ [0, 0, 0, 6, 0, 1, 0, 1, 0, 0x60]
        @ MTrk @ [0, 0, 0, 7, 0x00, 0x90, 0x3C, 0x40, 0x00, 0x3C, 0x00])
       = Inl (MIDIError event_type_message)"
proof -
  have a: "MidiFile_init ([0x58, 0x59, 0x5A, 0x5A] @ [0, 0, 0, 6, 0, 1, 0, 1, 0, 0x60])
      = Inl AssertionError"
    using parser_rejects_malformed_input
      [of "[0x58, 0x59, 0x5A, 0x5A] @ [0, 0, 0, 6, 0, 1, 0, 1, 0, 0x60]"]
    by (simp add: MThd_def)
  have b: "MidiFile_init (MThd @ [0, 0, 0, 6, 0, 1, 0, 1, 0xE7, 0x28])
      = Inl (MIDIError seconds_message)"
    using parser_rejects_malformed_input [of "MThd @ [0, 0, 0, 6, 0, 1, 0, 1, 0xE7, 0x28]"]
    by (simp add: MThd_def from_bytes_def bit_iff_odd_drop_bit)
  have t: "timedelta_loop 0 0 [0x00, 0x3C, 0x00] = (0, 1, [0x3C, 0x00])"
    by (simp add: timedelta_loop_step)
  have r: "read_events (Suc 0) [0x00, 0x90, 0x3C, 0x40, 0x00, 0x3C, 0x00] =
      Inr ([\<lparr>pe_length = 4, timedelta = 0, note = Some 60, velocity = Some 64,
             channel = Some 0, p_trailing_ignore = [], p_event_info = 144\<rparr>],
           [0x00, 0x3C, 0x00])"
    by (simp add: MidiEvent_init_def MidiEvent_dispatch_def timedelta_loop_step
        read_bytes_def read_def from_bytes_def)
  have c: "MidiEvent_init [0x00, 0x3C, 0x00] = Inl (MIDIError event_type_message)
      \<and> MidiFile_init (MThd @ [0, 0, 0, 6, 0, 1, 0, 1, 0, 0x60]
        @ MTrk @ [0, 0, 0, 7, 0x00, 0x90, 0x3C, 0x40, 0x00, 0x3C, 0x00])
       = Inl (MIDIError event_type_message)"
    using parser_rejects_malformed_input
      [of "MThd @ [0, 0, 0, 6, 0, 1, 0, 1, 0, 0x60]
        @ MTrk @ [0, 0, 0, 7, 0x00, 0x90, 0x3C, 0x40, 0x00, 0x3C, 0x00]"
        "[0x00, 0x3C, 0x00]" 0 1 "[0x3C, 0x00]" 0 "[]"
        "MTrk @ [0, 0, 0, 7, 0x00, 0x90, 0x3C, 0x40, 0x00, 0x3C, 0x00]" "Suc 0"
        "[\<lparr>pe_length = 4, timedelta = 0, note = Some 60, velocity = Some 64,
             channel = Some 0, p_trailing_ignore = [], p_event_info = 144\<rparr>]"] t r
    by (simp add: MThd_def MTrk_def from_bytes_def bit_iff_odd_drop_bit)
  from a b c show ?thesis by simp
qed

section \<open>Reading a file and writing it back\<close>

lemma timedelta_loop_shape:
  "timedelta_loop acc len f = (td, n, f1) \<Longrightarrow> n - len = int (length f) - int (length f1) \<Longrightarrow>
     \<exists>c l. f = c @ l # f1 \<and> (\<forall>b\<in>set c. \<not> uint b < 128) \<and> uint l < 128
       \<and> n = len + int (length c) + 1
       \<and> td = foldl (\<lambda>a b. a * 128 + (uint b - 128)) acc c * 128 + uint l"
proof (induction f arbitrary: acc len)
  case Nil
  then show ?case
    by (simp add: timedelta_loop_Nil)
next
  case (Cons b f)
  show ?case
  proof (cases "uint b < 128")
    case True
    with Cons.prems have "td = acc * 128 + uint b" "n = len + 1" "f1 = f"
      by (simp_all add: timedelta_loop_step)
    with True show ?thesis
      by (intro exI [of _ "[]"] exI [of _ b]) simp
  next
    case False
    with Cons.prems(1)
    have t: "timedelta_loop (acc * 128 + (uint b - 128)) (len + 1) f = (td, n, f1)"
      by (simp add: timedelta_loop_step)
    from Cons.prems(2) have "n - (len + 1) = int (length f) - int (length f1)"
      by simp
    from Cons.IH [OF t this] obtain c l where
      c: "f = c @ l # f1" "\<forall>b\<in>set c. \<not> uint b < 128" "uint l < 128"
      "n = len + 1 + int (length c) + 1"
      "td = foldl (\<lambda>a b. a * 128 + (uint b - 128)) (acc * 128 + (uint b - 128)) c * 128 + uint l"
      by blast
    with False show ?thesis
      by (intro exI [of _ "b # c"] exI [of _ l]) simp
  qed
qed

lemma td_loop_continuation:
  "\<forall>b\<in>set c. \<not> uint b < 128 \<Longrightarrow> 0 \<le> acc \<Longrightarrow> 0 < acc \<or> (c \<noteq> [] \<and> hd c \<noteq> 0x80) \<Longrightarrow>
     0 < foldl (\<lambda>a b. a * 128 + (uint b - 128)) acc c
     \<and> td_loop (foldl (\<lambda>a b. a * 128 + (uint b - 128)) acc c) False r
         = td_loop acc False (c @ r)"
proof (induction c arbitrary: acc r)
  case Nil
  then show ?case by simp
next
  case (Cons b c)
  define m where "m = uint b - 128"
  define acc' where "acc' = acc * 128 + m"
  have m: "0 \<le> m" "m < 128"
    using Cons.prems(1) uint_byte_bounds [of b] by (simp_all add: m_def)
  have "b \<noteq> 0x80 \<Longrightarrow> 0 < m"
  proof -
    assume "b \<noteq> 0x80"
    then have "uint b \<noteq> uint (0x80 :: byte)"
      by (simp only: word_uint_eq_iff [symmetric] not_False_eq_True)
    with m show ?thesis by (simp add: m_def)
  qed
  with Cons.prems(2,3) m have pos: "0 < acc'"
    by (auto simp: acc'_def intro: add_pos_nonneg add_nonneg_pos)
  have dm: "acc' div 128 = acc" "acc' mod 128 = m"
    using m by (simp_all add: acc'_def)
  have b: "word_of_int (m + 128) = b"
    by (simp add: m_def)
  have step: "td_loop acc' False r' = td_loop acc False (b # r')" for r'
    using td_loop_step [OF pos, of False r'] by (simp only: dm b if_False)
  have ih: "0 < foldl (\<lambda>a b. a * 128 + (uint b - 128)) acc' c
     \<and> td_loop (foldl (\<lambda>a b. a * 128 + (uint b - 128)) acc' c) False r
         = td_loop acc' False (c @ r)"
    using Cons.prems(1) pos by (intro Cons.IH) simp_all
  with step [of "c @ r"] show ?case
    by (simp add: acc'_def m_def)
qed

lemma to_file_timedelta_reads_back:
  assumes t: "timedelta_loop 0 0 f = (td, n, f1)"
    and exact: "n = int (length f) - int (length f1)"
    and hd: "hd f \<noteq> 0x80"
  shows "\<exists>d. f = d @ f1 \<and> int (length d) = n \<and> to_file_timedelta td = Some (Inr d)"
proof -
  from timedelta_loop_shape [OF t] exact obtain c l where
    c: "f = c @ l # f1" "\<forall>b\<in>set c. \<not> uint b < 128" "uint l < 128"
    "n = int (length c) + 1"
    "td = foldl (\<lambda>a b. a * 128 + (uint b - 128)) 0 c * 128 + uint l"
    by auto
  have l: "0 \<le> uint l" by simp
  have wl: "word_of_int (uint l) = l" by simp
  have "to_file_timedelta td = Some (Inr (c @ [l]))"
  proof (cases "c = []")
    case True
    with c(5) have td: "td = uint l" by simp
    show ?thesis
    proof (cases "uint l = 0")
      case z: True
      then have "l = 0" by (simp add: word_uint_eq_iff)
      with True td z show ?thesis
        by (simp add: to_file_timedelta_def td_loop_zero)
    next
      case False
      with uint_ge_0 [of l] have pos: "0 < td" unfolding td by linarith
      have "td div 128 = 0" "td mod 128 = uint l"
        using c(3) l by (simp_all add: td)
      with td_loop_step [OF pos, of True "[]"] have "td_loop td True [] = Some (Inr [l])"
        by (simp add: td_loop_zero)
      with True show ?thesis
        by (simp add: to_file_timedelta_def)
    qed
  next
    case False
    with c(1) hd have "hd c \<noteq> 0x80" by (cases c) simp_all
    with td_loop_continuation [OF c(2), of 0 "[l]"] False
    have x: "0 < foldl (\<lambda>a b. a * 128 + (uint b - 128)) 0 c"
      "td_loop (foldl (\<lambda>a b. a * 128 + (uint b - 128)) 0 c) False [l] = Some (Inr (c @ [l]))"
      by (simp_all add: td_loop_zero)
    define X where "X = foldl (\<lambda>a b. a * 128 + (uint b - 128)) 0 c"
    have td: "td = X * 128 + uint l" by (simp add: c(5) X_def)
    have pos: "0 < td"
      using x(1) uint_ge_0 [of l] unfolding td X_def by linarith
    have "td div 128 = X" "td mod 128 = uint l"
      using c(3) l by (simp_all add: td)
    with td_loop_step [OF pos, of True "[]"] x(2) have "td_loop td True [] = Some (Inr (c @ [l]))"
      by (simp add: X_def)
    with False show ?thesis
      by (simp add: to_file_timedelta_def)
  qed
  with c show ?thesis
    by (intro exI [of _ "c @ [l]"]) simp
qed

lemma ignore_loop_bytes:
  "ignore_loop tr num len g = (tr', num', len', g') \<Longrightarrow>
     \<exists>x. tr' = tr @ x \<and> g = x @ g' \<and> int (length x) \<le> len' - len"
proof (induction g arbitrary: tr num len)
  case Nil
  then show ?case by (simp add: ignore_loop_Nil)
next
  case (Cons b g)
  show ?case
  proof (cases "drop_bit 7 (uint b) AND 1 = 0")
    case True
    with Cons.prems show ?thesis
      by (intro exI [of _ "[b]"]) (auto simp: ignore_loop_Cons)
  next
    case False
    with Cons.prems
    have "ignore_loop (tr @ [b]) (num + (uint b AND 127)) (len + 1) g = (tr', num', len', g')"
      by (simp add: ignore_loop_Cons)
    from Cons.IH [OF this] obtain x where
      "tr' = (tr @ [b]) @ x" "g = x @ g'" "int (length x) \<le> len' - (len + 1)"
      by blast
    then show ?thesis
      by (intro exI [of _ "b # x"]) simp
  qed
qed

lemma from_bytes_single: "from_bytes [b] = uint b"
  by (simp add: from_bytes_def)

lemma from_bytes_take_1: "0 \<le> from_bytes (take 1 g) \<and> from_bytes (take 1 g) < 256"
  using uint_byte_bounds by (cases g) (simp_all add: from_bytes_def)

lemma to_bytes_uint: "to_bytes (uint (b::byte)) 1 = Inr [b]"
  using uint_byte_bounds [of b] by (simp add: to_bytes_Suc_0)

lemma to_bytes_uint_Suc_0: "to_bytes (uint (b::byte)) (Suc 0) = Inr [b]"
  using uint_byte_bounds [of b] by (simp add: to_bytes_Suc_0)

lemma MidiEvent_to_file_opaque:
  assumes "note ev = None" and "p_event_info ev = uint s"
    and "to_file_timedelta (timedelta ev) = Some (Inr tb)"
  shows "MidiEvent_to_file ev = Some (Inr (tb @ s # p_trailing_ignore ev))"
  using assms by (simp add: MidiEvent_to_file_def to_bytes_uint to_bytes_uint_Suc_0)

lemma MidiEvent_dispatch_Nil: "MidiEvent_dispatch td n [] = Inl (MIDIError event_type_message)"
  by (simp add: MidiEvent_dispatch_def read_bytes_def read_def from_bytes_def)

lemma MidiEvent_dispatch_decomp:
  assumes d: "MidiEvent_dispatch td n f1 = Inr (ev, r)"
  shows "timedelta ev = td
    \<and> (\<exists>tail. (\<forall>tb. to_file_timedelta td = Some (Inr tb) \<longrightarrow>
                   MidiEvent_to_file ev = Some (Inr (tb @ tail)))
         \<and> int (length tail) \<le> pe_length ev - n
         \<and> int (length f1) - int (length r) \<le> pe_length ev - n
         \<and> (int (length f1) - int (length r) = pe_length ev - n \<longrightarrow> f1 = tail @ r))"
proof -
  from d obtain s f2 where f1: "f1 = s # f2"
    by (cases f1) (simp_all add: MidiEvent_dispatch_Nil)
  define ty where "ty = drop_bit 4 (uint s)"
  have rb: "read_bytes n (s # f2) 1 = ([s], n + 1, f2)"
    by (simp add: read_bytes_1)
  note unfold = MidiEvent_dispatch_def f1 rb from_bytes_single Let_def ty_def [symmetric]
  consider (meta) "ty = 15" | (two) "ty = 10 \<or> ty = 11 \<or> ty = 14" | (one) "ty = 12 \<or> ty = 13"
    | (key) "ty = 8 \<or> ty = 9"
    | (bad) "ty \<noteq> 15" "ty \<noteq> 10" "ty \<noteq> 11" "ty \<noteq> 14" "ty \<noteq> 12" "ty \<noteq> 13" "ty \<noteq> 8" "ty \<noteq> 9"
    by blast
  then show ?thesis
  proof cases
    case bad
    with d show ?thesis
      by (simp add: unfold)
  next
    case two
    with d have ev: "ev = \<lparr>pe_length = n + 3, timedelta = td, note = None, velocity = None,
        channel = None, p_trailing_ignore = take 2 f2, p_event_info = uint s\<rparr>"
      and r: "r = drop 2 f2"
      by (auto simp: unfold read_bytes_def read_def)
    have "MidiEvent_to_file ev = Some (Inr (tb @ s # take 2 f2))"
      if "to_file_timedelta td = Some (Inr tb)" for tb
      using MidiEvent_to_file_opaque [of ev s tb] that by (simp add: ev)
    moreover have "f1 = (s # take 2 f2) @ r"
      by (simp add: f1 r)
    ultimately show ?thesis
      by (intro conjI exI [of _ "s # take 2 f2"]) (auto simp: ev r f1)
  next
    case one
    with d have ev: "ev = \<lparr>pe_length = n + 2, timedelta = td, note = None, velocity = None,
        channel = None, p_trailing_ignore = take 1 f2, p_event_info = uint s\<rparr>"
      and r: "r = drop 1 f2"
      by (auto simp: unfold read_bytes_def read_def)
    have "MidiEvent_to_file ev = Some (Inr (tb @ s # take 1 f2))"
      if "to_file_timedelta td = Some (Inr tb)" for tb
      using MidiEvent_to_file_opaque [of ev s tb] that by (simp add: ev)
    moreover have "f1 = (s # take 1 f2) @ r"
      by (simp add: f1 r)
    ultimately show ?thesis
      by (intro conjI exI [of _ "s # take 1 f2"]) (auto simp: ev r f1)
  next
    case key
    define nn where "nn = from_bytes (take 1 f2)"
    define vv where "vv = from_bytes (take 1 (drop 1 f2))"
    from key d have ev: "ev = \<lparr>pe_length = n + 3, timedelta = td, note = Some nn,
        velocity = Some vv, channel = Some (uint s AND 15), p_trailing_ignore = [],
        p_event_info = uint s\<rparr>"
      and r0: "r = drop 1 (drop 1 f2)"
      by (auto simp: unfold read_bytes_def read_def nn_def vv_def)
    have r: "r = drop 2 f2"
      by (simp add: r0 numeral_2_eq_2)
    have nb: "0 \<le> nn" "nn < 256" "0 \<le> vv" "vv < 256"
      using from_bytes_take_1 [of f2] from_bytes_take_1 [of "drop 1 f2"]
      by (simp_all add: nn_def vv_def)
    have "MidiEvent_to_file ev = Some (Inr (tb @ [s, word_of_int nn, word_of_int vv]))"
      if "to_file_timedelta td = Some (Inr tb)" for tb
      using that nb uint_byte_bounds [of s]
      by (simp add: ev MidiEvent_to_file_def to_bytes_uint to_bytes_uint_Suc_0 to_bytes_1
          to_bytes_Suc_0)
    moreover have "f1 = [s, word_of_int nn, word_of_int vv] @ r"
      if "int (length f1) - int (length r) = pe_length ev - n"
    proof -
      from that have "2 \<le> length f2"
        by (simp add: f1 r ev)
      then obtain b1 b2 g where "f2 = b1 # b2 # g"
        by (cases f2; cases "tl f2") auto
      then show ?thesis
        by (simp add: f1 r nn_def vv_def from_bytes_single)
    qed
    ultimately show ?thesis
      by (intro conjI exI [of _ "[s, word_of_int nn, word_of_int vv]"]) (auto simp: ev r f1)
  next
    case meta
    define m where "m = (if uint s AND 15 = 15 then take 1 f2 else [])"
    define g where "g = (if uint s AND 15 = 15 then drop 1 f2 else f2)"
    define l3 where "l3 = (if uint s AND 15 = 15 then n + 1 + 1 else n + 1)"
    obtain t2 num l4 f4 where ig: "ignore_loop m 0 l3 g = (t2, num, l4, f4)"
      by (cases "ignore_loop m 0 l3 g") auto
    from meta d ig have ev: "ev = \<lparr>pe_length = l4 + num, timedelta = td, note = None,
        velocity = None, channel = None, p_trailing_ignore = t2 @ fst (read num f4),
        p_event_info = uint s\<rparr>"
      and r: "r = snd (read num f4)"
      by (auto simp: unfold read_bytes_def m_def g_def l3_def read_def [of 1] split: if_splits)
    from ignore_loop_grows_0 [OF ig] have num: "0 \<le> num" by simp
    from ignore_loop_bytes [OF ig] obtain x where
      x: "t2 = m @ x" "g = x @ f4" "int (length x) \<le> l4 - l3"
      by blast
    have pay: "fst (read num f4) = take (nat num) f4" "snd (read num f4) = drop (nat num) f4"
      using num by (simp_all add: read_def)
    have f2: "f2 = m @ g"
      by (simp add: m_def g_def)
    have lm: "int (length m) \<le> l3 - (n + 1)"
      by (simp add: m_def l3_def)
    have split: "f1 = (s # t2 @ take (nat num) f4) @ r"
      by (simp add: f1 f2 x r pay)
    have len: "int (length (s # t2 @ take (nat num) f4)) \<le> pe_length ev - n"
      using x(3) lm num by (simp add: ev x(1))
    have "MidiEvent_to_file ev = Some (Inr (tb @ s # t2 @ take (nat num) f4))"
      if "to_file_timedelta td = Some (Inr tb)" for tb
      using MidiEvent_to_file_opaque [of ev s tb] that by (simp add: ev pay)
    moreover have "int (length f1) - int (length r) \<le> pe_length ev - n"
      using len by (subst split) (simp del: length_Cons)
    ultimately show ?thesis
      using split len
      by (intro conjI exI [of _ "s # t2 @ take (nat num) f4"]) (auto simp: ev)
  qed
qed

lemma timedelta_loop_requested:
  "timedelta_loop acc len f = (td, n, f1) \<Longrightarrow>
     int (length f) - int (length f1) \<le> n - len \<and> length f1 \<le> length f"
proof (induction f arbitrary: acc len)
  case Nil
  then show ?case by (auto simp: timedelta_loop_Nil)
next
  case (Cons b f)
  show ?case
  proof (cases "uint b < 128")
    case True
    with Cons.prems show ?thesis
      by (auto simp: timedelta_loop_step)
  next
    case False
    with Cons.prems
    have "timedelta_loop (acc * 128 + (uint b - 128)) (len + 1) f = (td, n, f1)"
      by (simp add: timedelta_loop_step)
    from Cons.IH [OF this] show ?thesis
      by simp
  qed
qed

lemma MidiEvent_init_decomp:
  assumes "MidiEvent_init f = Inr (ev, r)"
  shows "\<exists>td n f1 tail. timedelta_loop 0 0 f = (td, n, f1) \<and> timedelta ev = td
    \<and> (\<forall>tb. to_file_timedelta td = Some (Inr tb) \<longrightarrow>
           MidiEvent_to_file ev = Some (Inr (tb @ tail)))
    \<and> int (length tail) \<le> pe_length ev - n
    \<and> int (length f1) - int (length r) \<le> pe_length ev - n
    \<and> (int (length f1) - int (length r) = pe_length ev - n \<longrightarrow> f1 = tail @ r)"
proof -
  obtain td n f1 where t: "timedelta_loop 0 0 f = (td, n, f1)"
    by (cases "timedelta_loop 0 0 f") auto
  with assms have "MidiEvent_dispatch td n f1 = Inr (ev, r)"
    by (simp add: MidiEvent_init_def)
  from MidiEvent_dispatch_decomp [OF this] t show ?thesis
    by blast
qed

lemma MidiEvent_init_requested:
  assumes "MidiEvent_init f = Inr (ev, r)"
  shows "int (length f) - int (length r) \<le> pe_length ev"
proof -
  from assms obtain td n f1 tail where t: "timedelta_loop 0 0 f = (td, n, f1)"
    and tdv: "timedelta ev = td"
    and ser: "\<forall>tb. to_file_timedelta td = Some (Inr tb) \<longrightarrow>
           MidiEvent_to_file ev = Some (Inr (tb @ tail))"
    and tail: "int (length tail) \<le> pe_length ev - n"
    and le: "int (length f1) - int (length r) \<le> pe_length ev - n"
    and eq: "int (length f1) - int (length r) = pe_length ev - n \<longrightarrow> f1 = tail @ r"
    using MidiEvent_init_decomp by blast
  from timedelta_loop_requested [OF t] le show ?thesis
    by simp
qed

lemma MidiEvent_init_serializes:
  assumes "MidiEvent_init f = Inr (ev, r)"
  shows "\<exists>b. MidiEvent_to_file ev = Some (Inr b) \<and> int (length b) \<le> pe_length ev"
proof -
  from assms obtain td n f1 tail where t: "timedelta_loop 0 0 f = (td, n, f1)"
    and tdv: "timedelta ev = td"
    and ser: "\<forall>tb. to_file_timedelta td = Some (Inr tb) \<longrightarrow>
           MidiEvent_to_file ev = Some (Inr (tb @ tail))"
    and tail: "int (length tail) \<le> pe_length ev - n"
    and le: "int (length f1) - int (length r) \<le> pe_length ev - n"
    and eq: "int (length f1) - int (length r) = pe_length ev - n \<longrightarrow> f1 = tail @ r"
    using MidiEvent_init_decomp by blast
  from timedelta_loop_nonneg [OF t] have "0 \<le> td" by simp
  from to_file_timedelta_nonneg [OF this]
  obtain tb where tb: "to_file_timedelta td = Some (Inr tb)"
    "length tb = 1 \<or> 128 ^ (length tb - 1) \<le> td"
    by blast
  from encoding_shortest [OF tb(2) t] have "int (length tb) \<le> n" .
  with ser [rule_format, OF tb(1)] tail show ?thesis
    by (intro exI [of _ "tb @ tail"]) simp
qed

lemma MidiEvent_round_trip_hd:
  assumes e: "MidiEvent_init f = Inr (ev, r)"
    and exact: "int (length f) - int (length r) = pe_length ev"
    and hd: "hd f \<noteq> 0x80"
  shows "\<exists>b. MidiEvent_to_file ev = Some (Inr b) \<and> f = b @ r"
proof -
  from e obtain td n f1 tail where t: "timedelta_loop 0 0 f = (td, n, f1)"
    and tdv: "timedelta ev = td"
    and ser: "\<forall>tb. to_file_timedelta td = Some (Inr tb) \<longrightarrow>
           MidiEvent_to_file ev = Some (Inr (tb @ tail))"
    and tail: "int (length tail) \<le> pe_length ev - n"
    and le: "int (length f1) - int (length r) \<le> pe_length ev - n"
    and eq: "int (length f1) - int (length r) = pe_length ev - n \<longrightarrow> f1 = tail @ r"
    using MidiEvent_init_decomp by blast
  from timedelta_loop_requested [OF t] have le1: "int (length f) - int (length f1) \<le> n"
    by simp
  with le exact have n: "n = int (length f) - int (length f1)"
    and x: "int (length f1) - int (length r) = pe_length ev - n"
    by simp_all
  from to_file_timedelta_reads_back [OF t n hd] obtain d where
    d: "f = d @ f1" "to_file_timedelta td = Some (Inr d)"
    by blast
  from ser [rule_format, OF d(2)] eq [rule_format, OF x] d(1) show ?thesis
    by (intro exI [of _ "d @ tail"]) simp
qed

lemma MidiEvent_init_Nil: "MidiEvent_init [] = Inl (MIDIError event_type_message)"
  by (simp add: MidiEvent_init_def timedelta_loop_Nil MidiEvent_dispatch_Nil)

lemma MidiEvent_round_trip:
  assumes e: "MidiEvent_init f = Inr (ev, r)"
    and exact: "int (length f) - int (length r) = pe_length ev"
    and b: "MidiEvent_to_file ev = Some (Inr b)" "int (length b) = pe_length ev"
  shows "f = b @ r"
proof (cases "hd f = 0x80")
  case False
  from MidiEvent_round_trip_hd [OF e exact False] b(1) show ?thesis
    by auto
next
  case True
  from e have "f \<noteq> []"
    by (auto simp: MidiEvent_init_Nil)
  with True obtain f' where f: "f = 0x80 # f'"
    by (cases f) auto
  from e obtain ev' where e': "MidiEvent_init f' = Inr (ev', r)"
    and ev: "ev = ev'\<lparr>pe_length := pe_length ev' + 1\<rparr>"
    by (auto simp: f MidiEvent_init_0x80 split: sum.splits)
  from MidiEvent_init_serializes [OF e'] obtain b' where
    "MidiEvent_to_file ev' = Some (Inr b')" "int (length b') \<le> pe_length ev'"
    by blast
  with b show ?thesis
    by (simp add: ev MidiEvent_to_file_pe_length)
qed

lemma from_bytes_bounds: "0 \<le> from_bytes bs \<and> from_bytes bs < 256 ^ length bs"
proof (induction bs rule: rev_induct)
  case Nil
  show ?case by (simp add: from_bytes_def)
next
  case (snoc b bs)
  have "from_bytes bs * 256 + uint b < (from_bytes bs + 1) * 256"
    using uint_byte_bounds [of b] by (simp add: algebra_simps)
  also have "\<dots> \<le> 256 ^ length bs * 256"
    using snoc by (intro mult_right_mono) simp_all
  finally show ?case
    using snoc by (simp add: from_bytes_snoc)
qed

lemma to_bytes_digits_from_bytes: "to_bytes_digits (length bs) (from_bytes bs) = bs"
proof (induction bs rule: rev_induct)
  case Nil
  show ?case by simp
next
  case (snoc b bs)
  have "(from_bytes bs * 256 + uint b) div 256 = from_bytes bs"
    using uint_byte_bounds [of b] by simp
  moreover have "word_of_int (from_bytes bs * 256 + uint b) = b"
  proof -
    have "(from_bytes bs * 256 + uint b) mod 256 = uint b"
      using uint_byte_bounds [of b] by simp
    then have "uint (word_of_int (from_bytes bs * 256 + uint b) :: byte) = uint b"
      by (simp only: uint_word_of_int_mod)
    then show ?thesis
      by (simp only: word_uint_eq_iff)
  qed
  ultimately show ?case
    using snoc by (simp add: from_bytes_snoc)
qed

lemma to_bytes_from_bytes: "length bs = k \<Longrightarrow> to_bytes (from_bytes bs) k = Inr bs"
  using from_bytes_bounds [of bs] to_bytes_digits_from_bytes [of bs]
  by (auto simp: to_bytes_def)

lemma track_loop_decomp:
  "track_loop L evs f = Inr (evs', r) \<Longrightarrow>
     \<exists>new. evs' = evs @ new \<and> sum_list (map pe_length new) = L
       \<and> int (length f) - int (length r) \<le> L
       \<and> (int (length f) - int (length r) = L
            \<and> (\<forall>ev\<in>set new. \<exists>b. MidiEvent_to_file ev = Some (Inr b)
                   \<and> int (length b) = pe_length ev)
          \<longrightarrow> (\<exists>bs. list_all2 (\<lambda>ev b. MidiEvent_to_file ev = Some (Inr b)) new bs
                  \<and> f = concat bs @ r))"
proof (induction L evs f arbitrary: evs' r rule: track_loop.induct)
  case (1 len evs f)
  show ?case
  proof (cases "len = 0")
    case True
    with "1.prems" have "evs' = evs" "r = f"
      by (simp_all add: track_loop.simps)
    with True show ?thesis
      by (intro exI [of _ "[]"]) simp
  next
    case False
    with "1.prems" obtain ev f1 where e: "MidiEvent_init f = Inr (ev, f1)"
      and t: "track_loop (len - pe_length ev) (evs @ [ev]) f1 = Inr (evs', r)"
      by (subst (asm) track_loop.simps) (auto split: sum.splits)
    from "1.IH" [OF False e refl t] obtain new where
      new: "evs' = (evs @ [ev]) @ new" "sum_list (map pe_length new) = len - pe_length ev"
      "int (length f1) - int (length r) \<le> len - pe_length ev"
      and rt: "int (length f1) - int (length r) = len - pe_length ev
            \<and> (\<forall>ev\<in>set new. \<exists>b. MidiEvent_to_file ev = Some (Inr b)
                   \<and> int (length b) = pe_length ev)
          \<longrightarrow> (\<exists>bs. list_all2 (\<lambda>ev b. MidiEvent_to_file ev = Some (Inr b)) new bs
                  \<and> f1 = concat bs @ r)"
      by blast
    from MidiEvent_init_requested [OF e] have le: "int (length f) - int (length f1) \<le> pe_length ev" .
    have "\<exists>bs. list_all2 (\<lambda>ev b. MidiEvent_to_file ev = Some (Inr b)) (ev # new) bs
                  \<and> f = concat bs @ r"
      if exact: "int (length f) - int (length r) = len"
        and canon: "\<forall>ev\<in>set (ev # new). \<exists>b. MidiEvent_to_file ev = Some (Inr b)
                   \<and> int (length b) = pe_length ev"
    proof -
      from exact le new(3) have x: "int (length f) - int (length f1) = pe_length ev"
        "int (length f1) - int (length r) = len - pe_length ev"
        by simp_all
      from canon obtain b where b: "MidiEvent_to_file ev = Some (Inr b)"
        "int (length b) = pe_length ev"
        by auto
      from MidiEvent_round_trip [OF e x(1) b] have f: "f = b @ f1" .
      from rt x(2) canon obtain bs where
        bs: "list_all2 (\<lambda>ev b. MidiEvent_to_file ev = Some (Inr b)) new bs" "f1 = concat bs @ r"
        by auto
      with b(1) f show ?thesis
        by (intro exI [of _ "b # bs"]) simp
    qed
    with new le show ?thesis
      by (intro exI [of _ "ev # new"]) auto
  qed
qed

lemma MidiTrack_round_trip:
  assumes "MidiTrack_init g = Inr (t, r)"
  shows "int (length g) - int (length r) \<le> 8 + sum_list (map pe_length (events t))
    \<and> (int (length g) - int (length r) = 8 + sum_list (map pe_length (events t))
         \<and> (\<forall>ev\<in>set (events t). \<exists>b. MidiEvent_to_file ev = Some (Inr b)
                \<and> int (length b) = pe_length ev)
       \<longrightarrow> (\<exists>out. MidiTrack_to_file t = Some (Inr out) \<and> g = out @ r))"
proof -
  from assms have hd: "take 4 g = MTrk"
    by (cases "take 4 g = MTrk") (simp_all add: MidiTrack_init_not_MTrk)
  define L where "L = from_bytes (take 4 (drop 4 g))"
  from assms obtain evs where tl: "track_loop L [] (drop 8 g) = Inr (evs, r)"
    and t: "t = \<lparr>events = evs\<rparr>"
    by (auto simp: MidiTrack_init_header [OF hd] L_def split: sum.splits)
  from track_loop_decomp [OF tl] have sum: "sum_list (map pe_length evs) = L"
    and le: "int (length (drop 8 g)) - int (length r) \<le> L"
    and rt: "int (length (drop 8 g)) - int (length r) = L
            \<and> (\<forall>ev\<in>set evs. \<exists>b. MidiEvent_to_file ev = Some (Inr b)
                   \<and> int (length b) = pe_length ev)
          \<longrightarrow> (\<exists>bs. list_all2 (\<lambda>ev b. MidiEvent_to_file ev = Some (Inr b)) evs bs
                  \<and> drop 8 g = concat bs @ r)"
    by auto
  have le8: "int (length g) - int (length (drop 8 g)) \<le> 8"
    by simp
  have "\<exists>out. MidiTrack_to_file t = Some (Inr out) \<and> g = out @ r"
    if exact: "int (length g) - int (length r) = 8 + sum_list (map pe_length (events t))"
      and canon: "\<forall>ev\<in>set (events t). \<exists>b. MidiEvent_to_file ev = Some (Inr b)
                \<and> int (length b) = pe_length ev"
  proof -
    from exact le le8 have g8: "8 \<le> length g"
      and x: "int (length (drop 8 g)) - int (length r) = L"
      by (simp_all add: t sum)
    with rt canon obtain bs where
      bs: "list_all2 (\<lambda>ev b. MidiEvent_to_file ev = Some (Inr b)) evs bs"
      "drop 8 g = concat bs @ r"
      by (auto simp: t)
    from bs(2) x have len: "int (length (concat bs)) = L"
      by simp
    have "length (take 4 (drop 4 g)) = 4"
      using g8 by simp
    from to_bytes_from_bytes [OF this] have tb: "to_bytes L 4 = Inr (take 4 (drop 4 g))"
      by (simp add: L_def)
    have "MidiTrack_to_file t = Some (Inr (MTrk @ take 4 (drop 4 g) @ concat bs))"
      using events_to_file_concat [OF bs(1), of "[]"] tb
      by (simp add: MidiTrack_to_file_def t len)
    moreover have "g = take 4 g @ take 4 (drop 4 g) @ drop 8 g"
      by (metis add_numeral_left append_take_drop_id drop_drop numeral_plus_numeral
          semiring_norm(2) semiring_norm(6))
    ultimately show ?thesis
      using hd bs(2) by (intro exI [of _ "MTrk @ take 4 (drop 4 g) @ concat bs"]) simp
  qed
  moreover have "int (length g) - int (length r) \<le> 8 + sum_list (map pe_length (events t))"
    using le le8 by (simp add: t sum)
  ultimately show ?thesis
    by blast
qed

lemma tracks_round_trip:
  "tracks_comprehension k g = Inr (ts, r) \<Longrightarrow>
     int (length g) - int (length r)
       \<le> sum_list (map (\<lambda>t. 8 + sum_list (map pe_length (events t))) ts)
     \<and> (int (length g) - int (length r)
           = sum_list (map (\<lambda>t. 8 + sum_list (map pe_length (events t))) ts)
          \<and> (\<forall>t\<in>set ts. \<forall>ev\<in>set (events t). \<exists>b. MidiEvent_to_file ev = Some (Inr b)
                 \<and> int (length b) = pe_length ev)
        \<longrightarrow> (\<exists>out. (\<forall>acc. tracks_to_file acc ts = Some (Inr (acc @ out))) \<and> g = out @ r))"
proof (induction k arbitrary: g ts)
  case 0
  then show ?case by simp
next
  case (Suc k)
  from Suc.prems obtain t g1 ts' where t: "MidiTrack_init g = Inr (t, g1)"
    and r: "tracks_comprehension k g1 = Inr (ts', r)" and ts: "ts = t # ts'"
    by (auto split: sum.splits)
  define S where "S = sum_list (map (\<lambda>t. 8 + sum_list (map pe_length (events t))) ts')"
  from MidiTrack_round_trip [OF t]
  have le1: "int (length g) - int (length g1) \<le> 8 + sum_list (map pe_length (events t))"
    and rt1: "int (length g) - int (length g1) = 8 + sum_list (map pe_length (events t))
         \<and> (\<forall>ev\<in>set (events t). \<exists>b. MidiEvent_to_file ev = Some (Inr b)
                \<and> int (length b) = pe_length ev)
       \<longrightarrow> (\<exists>out. MidiTrack_to_file t = Some (Inr out) \<and> g = out @ g1)"
    by simp_all
  from Suc.IH [OF r]
  have le2: "int (length g1) - int (length r) \<le> S"
    and rt2: "int (length g1) - int (length r) = S
          \<and> (\<forall>t\<in>set ts'. \<forall>ev\<in>set (events t). \<exists>b. MidiEvent_to_file ev = Some (Inr b)
                 \<and> int (length b) = pe_length ev)
        \<longrightarrow> (\<exists>out. (\<forall>acc. tracks_to_file acc ts' = Some (Inr (acc @ out))) \<and> g1 = out @ r)"
    by (simp_all add: S_def)
  have "\<exists>out. (\<forall>acc. tracks_to_file acc ts = Some (Inr (acc @ out))) \<and> g = out @ r"
    if exact: "int (length g) - int (length r)
           = sum_list (map (\<lambda>t. 8 + sum_list (map pe_length (events t))) ts)"
      and canon: "\<forall>t\<in>set ts. \<forall>ev\<in>set (events t). \<exists>b. MidiEvent_to_file ev = Some (Inr b)
                 \<and> int (length b) = pe_length ev"
  proof -
    from exact le1 le2
    have x: "int (length g) - int (length g1) = 8 + sum_list (map pe_length (events t))"
      "int (length g1) - int (length r) = S"
      by (simp_all add: ts S_def)
    from rt1 x(1) canon obtain o1 where o1: "MidiTrack_to_file t = Some (Inr o1)" "g = o1 @ g1"
      by (auto simp: ts)
    from rt2 x(2) canon obtain o2 where
      o2: "\<And>acc. tracks_to_file acc ts' = Some (Inr (acc @ o2))" "g1 = o2 @ r"
      by (auto simp: ts)
    from o1 o2 show ?thesis
      by (intro exI [of _ "o1 @ o2"]) (simp add: ts)
  qed
  moreover have "int (length g) - int (length r)
       \<le> sum_list (map (\<lambda>t. 8 + sum_list (map pe_length (events t))) ts)"
    using le1 le2 by (simp add: ts S_def)
  ultimately show ?case
    by blast
qed

lemma take_header:
  "take (8 + k) f = take 4 f @ take 4 (drop 4 f) @ take k (drop 8 f)"
proof -
  have "take (8 + k) f = take 8 f @ take k (drop 8 f)"
    by (rule take_add)
  moreover have "take 8 f = take 4 f @ take 4 (drop 4 f)"
    using take_add [of 4 4 f] by simp
  ultimately show ?thesis by simp
qed

lemma take_fields:
  "take (6 + k) g = take 2 g @ take 2 (drop 2 g) @ take 2 (drop 4 g) @ take k (drop 6 g)"
proof -
  have "take (6 + k) g = take 6 g @ take k (drop 6 g)"
    by (rule take_add)
  moreover have "take 6 g = take 4 g @ take 2 (drop 4 g)"
    using take_add [of 4 2 g] by simp
  moreover have "take 4 g = take 2 g @ take 2 (drop 2 g)"
    using take_add [of 2 2 g] by simp
  ultimately show ?thesis by simp
qed

lemma MidiFile_round_trip:
  assumes p: "MidiFile_init f = Inr (mf, rest)"
    and exact: "int (length f) = 8 + p_length mf
        + sum_list (map (\<lambda>t. 8 + sum_list (map pe_length (events t))) (tracks mf))
        + int (length rest)"
    and canon: "\<forall>t\<in>set (tracks mf). \<forall>ev\<in>set (events t).
        \<exists>b. MidiEvent_to_file ev = Some (Inr b) \<and> int (length b) = pe_length ev"
  shows "\<exists>out. MidiFile_to_file mf = Some (Inr out) \<and> f = out @ rest"
proof -
  from p have hd: "take 4 f = MThd"
    by (cases "take 4 f = MThd") (simp_all add: MidiFile_init_not_MThd)
  define hl where "hl = from_bytes (take 4 (drop 4 f))"
  from p hd have hl6: "6 \<le> hl"
    by (cases "6 \<le> hl") (simp_all add: MidiFile_init_def read_def hl_def)
  define body where "body = drop (8 + nat hl) f"
  define k where "k = nat (hl - 6)"
  from hl6 have hlk: "nat hl = 6 + k" "hl = 6 + int k"
    by (simp_all add: k_def)
  from p obtain ts where tc: "tracks_comprehension (nat (from_bytes (take 2 (drop 10 f)))) body
      = Inr (ts, rest)"
    and mf: "mf = \<lparr>p_length = hl, format = from_bytes (take 2 (drop 8 f)),
                     p_num_tracks = from_bytes (take 2 (drop 10 f)),
                     p_division = from_bytes (take 2 (drop 12 f)),
                     division_type = 0,
                     per_quarter_note = from_bytes (take 2 (drop 12 f)) AND 0b11111111111111,
                     p_trailing = take k (drop 14 f),
                     tracks = ts\<rparr>"
    using hl6 by (auto simp: MidiFile_init_header [OF hd] hl_def body_def k_def
        split: if_splits sum.splits)
  define S where "S = sum_list (map (\<lambda>t. 8 + sum_list (map pe_length (events t))) ts)"
  from tracks_round_trip [OF tc]
  have le: "int (length body) - int (length rest) \<le> S"
    and rt: "int (length body) - int (length rest) = S
          \<and> (\<forall>t\<in>set ts. \<forall>ev\<in>set (events t). \<exists>b. MidiEvent_to_file ev = Some (Inr b)
                 \<and> int (length b) = pe_length ev)
        \<longrightarrow> (\<exists>out. (\<forall>acc. tracks_to_file acc ts = Some (Inr (acc @ out))) \<and> body = out @ rest)"
    by (simp_all add: S_def)
  have leh: "int (length f) - int (length body) \<le> 8 + hl"
    using hl6 by (simp add: body_def)
  from exact le leh have long: "8 + nat hl \<le> length f"
    and x: "int (length body) - int (length rest) = S"
    using hl6 by (simp_all add: mf S_def body_def)
  from rt x canon obtain out where
    out: "\<And>acc. tracks_to_file acc ts = Some (Inr (acc @ out))" "body = out @ rest"
    by (auto simp: mf)
  have l4: "length (take 4 (drop 4 f)) = 4" and l2a: "length (take 2 (drop 8 f)) = 2"
    and l2b: "length (take 2 (drop 10 f)) = 2" and l2c: "length (take 2 (drop 12 f)) = 2"
    using long hlk by simp_all
  have tb: "to_bytes hl 4 = Inr (take 4 (drop 4 f))"
    "to_bytes (from_bytes (take 2 (drop 8 f))) 2 = Inr (take 2 (drop 8 f))"
    "to_bytes (from_bytes (take 2 (drop 10 f))) 2 = Inr (take 2 (drop 10 f))"
    "to_bytes (from_bytes (take 2 (drop 12 f))) 2 = Inr (take 2 (drop 12 f))"
    using to_bytes_from_bytes [OF l4] to_bytes_from_bytes [OF l2a]
      to_bytes_from_bytes [OF l2b] to_bytes_from_bytes [OF l2c]
    by (simp_all add: hl_def)
  define header where "header = MThd @ take 4 (drop 4 f) @ take 2 (drop 8 f)
      @ take 2 (drop 10 f) @ take 2 (drop 12 f) @ take k (drop 14 f)"
  have "MidiFile_to_file mf = Some (Inr (header @ out))"
    using out(1) [of header] by (simp add: MidiFile_to_file_def mf tb header_def)
  moreover have "take (8 + (6 + k)) f = header"
    using take_header [of "6 + k" f] take_fields [of k "drop 8 f"] hd
    by (simp add: header_def)
  then have "take (8 + nat hl) f = header"
    by (simp only: hlk(1))
  with append_take_drop_id [of "8 + nat hl" f] have "f = header @ body"
    by (simp add: body_def)
  ultimately show ?thesis
    using out(2) by (intro exI [of _ "header @ out"]) simp
qed

lemma to_bytes_digits_4:
  "to_bytes_digits 4 x =
     [word_of_int (x div 256 div 256 div 256), word_of_int (x div 256 div 256),
      word_of_int (x div 256), word_of_int x]"
  by (simp add: eval_nat_numeral)

lemma to_bytes_digits_2: "to_bytes_digits 2 x = [word_of_int (x div 256), word_of_int x]"
  by (simp add: eval_nat_numeral)

text \<open>
  C1, as stated, fails. The file below is accepted: chunk ids, declared lengths and events
  are in order, no read runs past its end and nothing follows its track. Its first
  delta-time is written \<open>80 00\<close>, which is read as 0; \<open>to_file\<close> writes 0 as \<open>00\<close>,
  so the track comes back one byte shorter, with the declared length 8 for 9.
\<close>

theorem round_trip_counterexample:
  "\<exists>mf. MidiFile_init (MThd @ [0, 0, 0, 6, 0, 0, 0, 1, 0, 0x60]
             @ MTrk @ [0, 0, 0, 9, 0x80, 0x00, 0x90, 0x3C, 0x40, 0x00, 0xFF, 0x2F, 0x00])
           = Inr (mf, [])
     \<and> MidiFile_to_file mf
         = Some (Inr (MThd @ [0, 0, 0, 6, 0, 0, 0, 1, 0, 0x60]
             @ MTrk @ [0, 0, 0, 8, 0x00, 0x90, 0x3C, 0x40, 0x00, 0xFF, 0x2F, 0x00]))
     \<and> MThd @ [0, 0, 0, 6, 0, 0, 0, 1, 0, 0x60]
             @ MTrk @ [0, 0, 0, 8, 0x00, 0x90, 0x3C, 0x40, 0x00, 0xFF, 0x2F, 0x00]
         \<noteq> MThd @ [0, 0, 0, 6, 0, 0, 0, 1, 0, 0x60]
             @ MTrk @ [0, 0, 0, 9, 0x80, 0x00, 0x90, 0x3C, 0x40, 0x00, 0xFF, 0x2F, 0x00]"
  by (simp add: MidiFile_init_def MidiTrack_init_def MThd_def MTrk_def track_loop.simps
      MidiEvent_init_def MidiEvent_dispatch_def timedelta_loop_step ignore_loop_Cons
      read_bytes_def read_def from_bytes_def MidiFile_to_file_def MidiTrack_to_file_def
      MidiEvent_to_file_def to_file_timedelta_def td_loop_zero to_bytes_def
      to_bytes_digits_4 to_bytes_digits_2)

lemma shortest_form_iff:
  assumes e: "MidiEvent_init f = Inr (ev, r)"
    and exact: "int (length f) - int (length r) = pe_length ev"
  shows "(hd f \<noteq> 0x80)
    = (\<exists>b. MidiEvent_to_file ev = Some (Inr b) \<and> int (length b) = pe_length ev)"
proof
  assume "hd f \<noteq> 0x80"
  from MidiEvent_round_trip_hd [OF e exact this] obtain b where
    b: "MidiEvent_to_file ev = Some (Inr b)" "f = b @ r"
    by blast
  from b(2) have "int (length f) = int (length b) + int (length r)"
    by simp
  with exact b(1) show "\<exists>b. MidiEvent_to_file ev = Some (Inr b) \<and> int (length b) = pe_length ev"
    by (intro exI [of _ b]) simp
next
  assume "\<exists>b. MidiEvent_to_file ev = Some (Inr b) \<and> int (length b) = pe_length ev"
  then obtain b where b: "MidiEvent_to_file ev = Some (Inr b)" "int (length b) = pe_length ev"
    by blast
  show "hd f \<noteq> 0x80"
  proof
    assume hd: "hd f = 0x80"
    from e have "f \<noteq> []"
      by (auto simp: MidiEvent_init_Nil)
    with hd obtain f' where f: "f = 0x80 # f'"
      by (cases f) auto
    from e obtain ev' where e': "MidiEvent_init f' = Inr (ev', r)"
      and ev: "ev = ev'\<lparr>pe_length := pe_length ev' + 1\<rparr>"
      by (auto simp: f MidiEvent_init_0x80 split: sum.splits)
    from MidiEvent_init_serializes [OF e'] obtain b' where
      "MidiEvent_to_file ev' = Some (Inr b')" "int (length b') \<le> pe_length ev'"
      by blast
    with b show False
      by (simp add: ev MidiEvent_to_file_pe_length)
  qed
qed

text \<open>
  C1, amended. For an event that \<open>__init__\<close> has built from bytes that were all there
  (its \<open>_length\<close> is the number of bytes taken from the stream), the first byte is not
  \<open>0x80\<close>, that is, the delta-time is in its shortest form, exactly when the event
  serializes to as many bytes as \<open>_length\<close> counts; and then it serializes to exactly
  the bytes consumed for it. A file that \<open>MidiFile.__init__\<close> accepts serializes to
  exactly the bytes consumed (the whole input when nothing is left after the last track)
  when the input holds every byte the parser has asked for (8 and the declared header
  length, and 8 and the \<open>_length\<close> of its events for every track) and every event
  serializes to as many bytes as \<open>_length\<close> counts for it.
\<close>

theorem parse_then_to_file_round_trip:
  "(MidiEvent_init g = Inr (ev, g') \<and> int (length g) = pe_length ev + int (length g')
     \<longrightarrow> (hd g \<noteq> 0x80)
          = (\<exists>b. MidiEvent_to_file ev = Some (Inr b) \<and> int (length b) = pe_length ev)
        \<and> (hd g \<noteq> 0x80 \<longrightarrow> (\<exists>b. MidiEvent_to_file ev = Some (Inr b) \<and> g = b @ g')))
   \<and> (MidiFile_init f = Inr (mf, rest)
      \<and> int (length f) = 8 + p_length mf
          + sum_list (map (\<lambda>t. 8 + sum_list (map pe_length (events t))) (tracks mf))
          + int (length rest)
      \<and> (\<forall>t\<in>set (tracks mf). \<forall>ev\<in>set (events t).
            \<exists>b. MidiEvent_to_file ev = Some (Inr b) \<and> int (length b) = pe_length ev)
     \<longrightarrow> (\<exists>out. MidiFile_to_file mf = Some (Inr out) \<and> f = out @ rest))"
proof (intro conjI impI)
  assume a: "MidiEvent_init g = Inr (ev, g') \<and> int (length g) = pe_length ev + int (length g')"
  then have e: "MidiEvent_init g = Inr (ev, g')"
    and x: "int (length g) - int (length g') = pe_length ev"
    by simp_all
  from shortest_form_iff [OF e x]
  show "(hd g \<noteq> 0x80)
      = (\<exists>b. MidiEvent_to_file ev = Some (Inr b) \<and> int (length b) = pe_length ev)" .
  assume "hd g \<noteq> 0x80"
  with e x show "\<exists>b. MidiEvent_to_file ev = Some (Inr b) \<and> g = b @ g'"
    by (rule MidiEvent_round_trip_hd)
next
  assume a: "MidiFile_init f = Inr (mf, rest)
      \<and> int (length f) = 8 + p_length mf
          + sum_list (map (\<lambda>t. 8 + sum_list (map pe_length (events t))) (tracks mf))
          + int (length rest)
      \<and> (\<forall>t\<in>set (tracks mf). \<forall>ev\<in>set (events t).
            \<exists>b. MidiEvent_to_file ev = Some (Inr b) \<and> int (length b) = pe_length ev)"
  show "\<exists>out. MidiFile_to_file mf = Some (Inr out) \<and> f = out @ rest"
    by (rule MidiFile_round_trip) (use a in blast)+
qed

theorem parse_then_to_file_round_trip_witness:
  "MidiEvent_init [0x81, 0x00, 0x80, 0x3C, 0x00] =
     Inr (\<lparr>pe_length = 5, timedelta = 128, note = Some 60, velocity = Some 0,
           channel = Some 0, p_trailing_ignore = [], p_event_info = 128\<rparr>, [])
   \<and> MidiEvent_to_file \<lparr>pe_length = 5, timedelta = 128, note = Some 60, velocity = Some 0,
           channel = Some 0, p_trailing_ignore = [], p_event_info = 128\<rparr>
       = Some (Inr [0x81, 0x00, 0x80, 0x3C, 0x00])
   \<and> MidiFile_init (MThd @ [0, 0, 0, 6, 0, 1, 0, 2, 0, 0x60]
         @ MTrk @ [0, 0, 0, 4, 0x00, 0xFF, 0x2F, 0x00]
         @ MTrk @ [0, 0, 0, 13, 0x00, 0x90, 0x3C, 0x40, 0x81, 0x00, 0x80, 0x3C, 0x00,
                   0x00, 0xFF, 0x2F, 0x00]) =
     Inr (\<lparr>p_length = 6, format = 1, p_num_tracks = 2, p_division = 96, division_type = 0,
           per_quarter_note = 96, p_trailing = [],
           tracks = [\<lparr>events = [\<lparr>pe_length = 4, timedelta = 0, note = None, velocity = None,
                        channel = None, p_trailing_ignore = [0x2F, 0x00],
                        p_event_info = 255\<rparr>]\<rparr>,
                     \<lparr>events = [\<lparr>pe_length = 4, timedelta = 0, note = Some 60,
                        velocity = Some 64, channel = Some 0, p_trailing_ignore = [],
                        p_event_info = 144\<rparr>,
                      \<lparr>pe_length = 5, timedelta = 128, note = Some 60, velocity = Some 0,
                        channel = Some 0, p_trailing_ignore = [], p_event_info = 128\<rparr>,
                      \<lparr>pe_length = 4, timedelta = 0, note = None, velocity = None,
                        channel = None, p_trailing_ignore = [0x2F, 0x00],
                        p_event_info = 255\<rparr>]\<rparr>]\<rparr>, [])
   \<and> MidiFile_to_file \<lparr>p_length = 6, format = 1, p_num_tracks = 2, p_division = 96,
           division_type = 0, per_quarter_note = 96, p_trailing = [],
           tracks = [\<lparr>events = [\<lparr>pe_length = 4, timedelta = 0, note = None, velocity = None,
                        channel = None, p_trailing_ignore = [0x2F, 0x00],
                        p_event_info = 255\<rparr>]\<rparr>,
                     \<lparr>events = [\<lparr>pe_length = 4, timedelta = 0, note = Some 60,
                        velocity = Some 64, channel = Some 0, p_trailing_ignore = [],
                        p_event_info = 144\<rparr>,
                      \<lparr>pe_length = 5, timedelta = 128, note = Some 60, velocity = Some 0,
                        channel = Some 0, p_trailing_ignore = [], p_event_info = 128\<rparr>,
                      \<lparr>pe_length = 4, timedelta = 0, note = None, velocity = None,
                        channel = None, p_trailing_ignore = [0x2F, 0x00],
                        p_event_info = 255\<rparr>]\<rparr>]\<rparr>
       = Some (Inr (MThd @ [0, 0, 0, 6, 0, 1, 0, 2, 0, 0x60]
         @ MTrk @ [0, 0, 0, 4, 0x00, 0xFF, 0x2F, 0x00]
         @ MTrk @ [0, 0, 0, 13, 0x00, 0x90, 0x3C, 0x40, 0x81, 0x00, 0x80, 0x3C, 0x00,
                   0x00, 0xFF, 0x2F, 0x00]))"
proof -
  have t128: "to_file_timedelta 128 = Some (Inr [0x81, 0x00])"
    by (simp add: to_file_timedelta_def td_loop.simps to_bytes_def)
  have t0: "to_file_timedelta 0 = Some (Inr [0x00])"
    by (simp add: to_file_timedelta_def td_loop_zero)
  have e: "MidiEvent_init [0x81, 0x00, 0x80, 0x3C, 0x00] =
     Inr (\<lparr>pe_length = 5, timedelta = 128, note = Some 60, velocity = Some 0,
           channel = Some 0, p_trailing_ignore = [], p_event_info = 128\<rparr>, [])"
    by (simp add: MidiEvent_init_def MidiEvent_dispatch_def timedelta_loop_step
        read_bytes_def read_def from_bytes_def)
  have two: "tracks_comprehension 2 h = tracks_comprehension (Suc (Suc 0)) h" for h
    by (simp add: numeral_2_eq_2)
  have p: "MidiFile_init (MThd @ [0, 0, 0, 6, 0, 1, 0, 2, 0, 0x60]
         @ MTrk @ [0, 0, 0, 4, 0x00, 0xFF, 0x2F, 0x00]
         @ MTrk @ [0, 0, 0, 13, 0x00, 0x90, 0x3C, 0x40, 0x81, 0x00, 0x80, 0x3C, 0x00,
                   0x00, 0xFF, 0x2F, 0x00]) =
     Inr (\<lparr>p_length = 6, format = 1, p_num_tracks = 2, p_division = 96, division_type = 0,
           per_quarter_note = 96, p_trailing = [],
           tracks = [\<lparr>events = [\<lparr>pe_length = 4, timedelta = 0, note = None, velocity = None,
                        channel = None, p_trailing_ignore = [0x2F, 0x00],
                        p_event_info = 255\<rparr>]\<rparr>,
                     \<lparr>events = [\<lparr>pe_length = 4, timedelta = 0, note = Some 60,
                        velocity = Some 64, channel = Some 0, p_trailing_ignore = [],
                        p_event_info = 144\<rparr>,
                      \<lparr>pe_length = 5, timedelta = 128, note = Some 60, velocity = Some 0,
                        channel = Some 0, p_trailing_ignore = [], p_event_info = 128\<rparr>,
                      \<lparr>pe_length = 4, timedelta = 0, note = None, velocity = None,
                        channel = None, p_trailing_ignore = [0x2F, 0x00],
                        p_event_info = 255\<rparr>]\<rparr>]\<rparr>, [])"
    by (simp add: MidiFile_init_def MidiTrack_init_def MThd_def MTrk_def track_loop.simps
        MidiEvent_init_def MidiEvent_dispatch_def timedelta_loop_step ignore_loop_Cons
        read_bytes_def read_def from_bytes_def two)
  from parse_then_to_file_round_trip
    [of "[0x81, 0x00, 0x80, 0x3C, 0x00]"
      "\<lparr>pe_length = 5, timedelta = 128, note = Some 60, velocity = Some 0,
           channel = Some 0, p_trailing_ignore = [], p_event_info = 128\<rparr>" "[]"
      "MThd @ [0, 0, 0, 6, 0, 1, 0, 2, 0, 0x60]
         @ MTrk @ [0, 0, 0, 4, 0x00, 0xFF, 0x2F, 0x00]
         @ MTrk @ [0, 0, 0, 13, 0x00, 0x90, 0x3C, 0x40, 0x81, 0x00, 0x80, 0x3C, 0x00,
                   0x00, 0xFF, 0x2F, 0x00]"
      "\<lparr>p_length = 6, format = 1, p_num_tracks = 2, p_division = 96, division_type = 0,
           per_quarter_note = 96, p_trailing = [],
           tracks = [\<lparr>events = [\<lparr>pe_length = 4, timedelta = 0, note = None, velocity = None,
                        channel = None, p_trailing_ignore = [0x2F, 0x00],
                        p_event_info = 255\<rparr>]\<rparr>,
                     \<lparr>events = [\<lparr>pe_length = 4, timedelta = 0, note = Some 60,
                        velocity = Some 64, channel = Some 0, p_trailing_ignore = [],
                        p_event_info = 144\<rparr>,
                      \<lparr>pe_length = 5, timedelta = 128, note = Some 60, velocity = Some 0,
                        channel = Some 0, p_trailing_ignore = [], p_event_info = 128\<rparr>,
                      \<lparr>pe_length = 4, timedelta = 0, note = None, velocity = None,
                        channel = None, p_trailing_ignore = [0x2F, 0x00],
                        p_event_info = 255\<rparr>]\<rparr>]\<rparr>" "[]"]
    e p
  show ?thesis
    by (simp add: MThd_def MTrk_def MidiEvent_to_file_def t128 t0 to_bytes_1 to_bytes_Suc_0)
qed

section \<open>What is written for a delta-time that was not in its shortest form\<close>

lemma to_file_timedelta_shortest:
  assumes d: "timedelta_loop 0 0 bs = (v, n, rest)"
  shows "\<exists>tb. to_file_timedelta v = Some (Inr tb)
      \<and> (\<forall>r. timedelta_loop 0 0 (tb @ r) = (v, int (length tb), r))
      \<and> (\<forall>cs m r. timedelta_loop 0 0 cs = (v, m, r) \<longrightarrow> int (length tb) \<le> m)
      \<and> int (length tb) \<le> n"
proof -
  from timedelta_loop_nonneg [OF d] have "0 \<le> v" by simp
  from to_file_timedelta_nonneg [OF this]
  obtain tb where tb: "to_file_timedelta v = Some (Inr tb)"
    and dec: "\<forall>r. timedelta_loop 0 0 (tb @ r) = (v, int (length tb), r)"
    and big: "length tb = 1 \<or> 128 ^ (length tb - 1) \<le> v"
    by blast
  have short: "\<forall>cs m r. timedelta_loop 0 0 cs = (v, m, r) \<longrightarrow> int (length tb) \<le> m"
  proof (intro allI impI)
    fix cs m r
    assume "timedelta_loop 0 0 cs = (v, m, r)"
    from encoding_shortest [OF big this] show "int (length tb) \<le> m" .
  qed
  from encoding_shortest [OF big d] have "int (length tb) \<le> n" .
  with tb dec short show ?thesis
    by (intro exI [of _ tb] conjI)
qed

text \<open>
  C10: a \<open>0x80\<close> byte in front of any bytes makes the delta-time loop read the same value
  \<open>v\<close> with one more byte counted, and makes \<open>__init__\<close> build the same event with
  \<open>_length\<close> one larger. \<open>to_file\<close> does not depend on \<open>_length\<close>: for the delta-time
  it writes bytes that the loop reads back as \<open>v\<close>, that are no longer than any byte
  sequence read as \<open>v\<close>, and so are shorter than the padded bytes; the event built from
  the padded bytes serializes to these bytes and the rest of the event, fewer bytes than
  were consumed for it. Two different byte sequences are read as one value.
\<close>

theorem nonminimal_delta_accepted:
  "(timedelta_loop 0 0 bs = (v, n, rest) \<longrightarrow>
      timedelta_loop 0 0 (0x80 # bs) = (v, n + 1, rest)
      \<and> (\<exists>tb. to_file_timedelta v = Some (Inr tb)
            \<and> (\<forall>r. timedelta_loop 0 0 (tb @ r) = (v, int (length tb), r))
            \<and> (\<forall>cs m r. timedelta_loop 0 0 cs = (v, m, r) \<longrightarrow> int (length tb) \<le> m)
            \<and> int (length tb) < n + 1))
   \<and> (MidiEvent_init bs = Inr (ev, rest') \<longrightarrow>
      MidiEvent_init (0x80 # bs) = Inr (ev\<lparr>pe_length := pe_length ev + 1\<rparr>, rest')
      \<and> MidiEvent_to_file (ev\<lparr>pe_length := pe_length ev + 1\<rparr>) = MidiEvent_to_file ev
      \<and> (\<exists>n f1 tb tail. timedelta_loop 0 0 bs = (timedelta ev, n, f1)
            \<and> to_file_timedelta (timedelta ev) = Some (Inr tb)
            \<and> MidiEvent_to_file (ev\<lparr>pe_length := pe_length ev + 1\<rparr>) = Some (Inr (tb @ tail))
            \<and> (\<forall>r. timedelta_loop 0 0 (tb @ r) = (timedelta ev, int (length tb), r))
            \<and> (\<forall>cs m r. timedelta_loop 0 0 cs = (timedelta ev, m, r)
                  \<longrightarrow> int (length tb) \<le> m)
            \<and> int (length (tb @ tail)) < pe_length ev + 1))
   \<and> 0x80 # bs \<noteq> bs"
proof (intro conjI impI)
  assume d: "timedelta_loop 0 0 bs = (v, n, rest)"
  have "timedelta_loop 0 0 (0x80 # bs) = timedelta_loop 0 (0 + 1) bs"
    by (simp add: timedelta_loop_step)
  with d show "timedelta_loop 0 0 (0x80 # bs) = (v, n + 1, rest)"
    by (simp only: timedelta_loop_shift fst_conv snd_conv)
  from to_file_timedelta_shortest [OF d]
  obtain tb where tb: "to_file_timedelta v = Some (Inr tb)"
    and dec: "\<forall>r. timedelta_loop 0 0 (tb @ r) = (v, int (length tb), r)"
    and short: "\<forall>cs m r. timedelta_loop 0 0 cs = (v, m, r) \<longrightarrow> int (length tb) \<le> m"
    and le: "int (length tb) \<le> n"
    by (elim exE conjE)
  from le have "int (length tb) < n + 1" by simp
  with tb dec short
  show "\<exists>tb. to_file_timedelta v = Some (Inr tb)
            \<and> (\<forall>r. timedelta_loop 0 0 (tb @ r) = (v, int (length tb), r))
            \<and> (\<forall>cs m r. timedelta_loop 0 0 cs = (v, m, r) \<longrightarrow> int (length tb) \<le> m)
            \<and> int (length tb) < n + 1"
    by (intro exI [of _ tb] conjI)
next
  assume "MidiEvent_init bs = Inr (ev, rest')"
  then show "MidiEvent_init (0x80 # bs) = Inr (ev\<lparr>pe_length := pe_length ev + 1\<rparr>, rest')"
    by (simp add: MidiEvent_init_0x80)
next
  show "MidiEvent_to_file (ev\<lparr>pe_length := pe_length ev + 1\<rparr>) = MidiEvent_to_file ev"
    by (rule MidiEvent_to_file_pe_length)
next
  assume e: "MidiEvent_init bs = Inr (ev, rest')"
  from MidiEvent_init_decomp [OF e]
  obtain td n f1 tail where t: "timedelta_loop 0 0 bs = (td, n, f1)"
    and tdv: "timedelta ev = td"
    and ser: "\<forall>tb. to_file_timedelta td = Some (Inr tb) \<longrightarrow>
           MidiEvent_to_file ev = Some (Inr (tb @ tail))"
    and tail: "int (length tail) \<le> pe_length ev - n"
    by (elim exE conjE)
  from to_file_timedelta_shortest [OF t]
  obtain tb where tb: "to_file_timedelta td = Some (Inr tb)"
    and dec: "\<forall>r. timedelta_loop 0 0 (tb @ r) = (td, int (length tb), r)"
    and short: "\<forall>cs m r. timedelta_loop 0 0 cs = (td, m, r) \<longrightarrow> int (length tb) \<le> m"
    and le: "int (length tb) \<le> n"
    by (elim exE conjE)
  from ser tb have "MidiEvent_to_file ev = Some (Inr (tb @ tail))"
    by simp
  then have out: "MidiEvent_to_file (ev\<lparr>pe_length := pe_length ev + 1\<rparr>)
      = Some (Inr (tb @ tail))"
    by (simp only: MidiEvent_to_file_pe_length)
  have len: "int (length (tb @ tail)) < pe_length ev + 1"
    using le tail by simp
  from t tb out dec short len
  show "\<exists>n f1 tb tail. timedelta_loop 0 0 bs = (timedelta ev, n, f1)
            \<and> to_file_timedelta (timedelta ev) = Some (Inr tb)
            \<and> MidiEvent_to_file (ev\<lparr>pe_length := pe_length ev + 1\<rparr>) = Some (Inr (tb @ tail))
            \<and> (\<forall>r. timedelta_loop 0 0 (tb @ r) = (timedelta ev, int (length tb), r))
            \<and> (\<forall>cs m r. timedelta_loop 0 0 cs = (timedelta ev, m, r)
                  \<longrightarrow> int (length tb) \<le> m)
            \<and> int (length (tb @ tail)) < pe_length ev + 1"
    unfolding tdv
    by (intro exI [of _ n] exI [of _ f1] exI [of _ tb] exI [of _ tail] conjI)
next
  show "0x80 # bs \<noteq> bs"
    by simp
qed

theorem nonminimal_delta_accepted_witness:
  "timedelta_loop 0 0 [0x81, 0x00, 0x90, 0x3C, 0x40] = (128, 2, [0x90, 0x3C, 0x40])
   \<and> timedelta_loop 0 0 [0x80, 0x81, 0x00, 0x90, 0x3C, 0x40] = (128, 3, [0x90, 0x3C, 0x40])
   \<and> to_file_timedelta 128 = Some (Inr [0x81, 0x00])
   \<and> MidiEvent_init [0x81, 0x00, 0x90, 0x3C, 0x40] =
        Inr (\<lparr>pe_length = 5, timedelta = 128, note = Some 60, velocity = Some 64,
              channel = Some 0, p_trailing_ignore = [], p_event_info = 144\<rparr>, [])
   \<and> MidiEvent_init [0x80, 0x81, 0x00, 0x90, 0x3C, 0x40] =
        Inr (\<lparr>pe_length = 6, timedelta = 128, note = Some 60, velocity = Some 64,
              channel = Some 0, p_trailing_ignore = [], p_event_info = 144\<rparr>, [])
   \<and> MidiEvent_to_file \<lparr>pe_length = 6, timedelta = 128, note = Some 60, velocity = Some 64,
              channel = Some 0, p_trailing_ignore = [], p_event_info = 144\<rparr>
        = Some (Inr [0x81, 0x00, 0x90, 0x3C, 0x40])"
proof -
  have d: "timedelta_loop 0 0 [0x81, 0x00, 0x90, 0x3C, 0x40] = (128, 2, [0x90, 0x3C, 0x40])"
    by (simp add: timedelta_loop_step)
  have e: "MidiEvent_init [0x81, 0x00, 0x90, 0x3C, 0x40] =
        Inr (\<lparr>pe_length = 5, timedelta = 128, note = Some 60, velocity = Some 64,
              channel = Some 0, p_trailing_ignore = [], p_event_info = 144\<rparr>, [])"
    by (simp add: MidiEvent_init_def MidiEvent_dispatch_def timedelta_loop_step read_bytes_def
        read_def from_bytes_def)
  have t128: "to_file_timedelta 128 = Some (Inr [0x81, 0x00])"
    by (simp add: to_file_timedelta_def td_loop.simps to_bytes_def)
  have t: "MidiEvent_to_file \<lparr>pe_length = 5, timedelta = 128, note = Some 60, velocity = Some 64,
              channel = Some 0, p_trailing_ignore = [], p_event_info = 144\<rparr>
        = Some (Inr [0x81, 0x00, 0x90, 0x3C, 0x40])"
    by (simp add: MidiEvent_to_file_def t128 to_bytes_1 to_bytes_Suc_0)
  note T = nonminimal_delta_accepted [of "[0x81, 0x00, 0x90, 0x3C, 0x40]" 128 2
      "[0x90, 0x3C, 0x40]"
      "\<lparr>pe_length = 5, timedelta = 128, note = Some 60, velocity = Some 64,
              channel = Some 0, p_trailing_ignore = [], p_event_info = 144\<rparr>" "[]"]
  from T [THEN conjunct1, THEN mp, OF d, THEN conjunct1]
  have a: "timedelta_loop 0 0 [0x80, 0x81, 0x00, 0x90, 0x3C, 0x40] = (128, 3, [0x90, 0x3C, 0x40])"
    by simp
  note E = T [THEN conjunct2, THEN conjunct1, THEN mp, OF e]
  from E [THEN conjunct1]
  have b: "MidiEvent_init [0x80, 0x81, 0x00, 0x90, 0x3C, 0x40] =
        Inr (\<lparr>pe_length = 6, timedelta = 128, note = Some 60, velocity = Some 64,
              channel = Some 0, p_trailing_ignore = [], p_event_info = 144\<rparr>, [])"
    by simp
  from E [THEN conjunct2, THEN conjunct1] t
  have c: "MidiEvent_to_file \<lparr>pe_length = 6, timedelta = 128, note = Some 60, velocity = Some 64,
              channel = Some 0, p_trailing_ignore = [], p_event_info = 144\<rparr>
        = Some (Inr [0x81, 0x00, 0x90, 0x3C, 0x40])"
    by simp
  from d a t128 e b c show ?thesis
    by (intro conjI)
qed

end
